theory Spec2Isabelle
  imports Main
begin

section \<open>asbest: units of work, sequential lists and bounded buckets\<close>

text \<open>
  The development embeds the task module of the repository: the classes \<^verbatim>\<open>Task\<close>,
  \<^verbatim>\<open>TaskWithQueue\<close>, \<^verbatim>\<open>TaskList\<close> and \<^verbatim>\<open>TaskBucket\<close>. The repository holds the module
  twice. The definitions follow the later text, the one its test can run against: it has
  \<^verbatim>\<open>collect\<close> and \<^verbatim>\<open>isQueue\<close>, \<^verbatim>\<open>execute\<close> returns \<^verbatim>\<open>this.result\<close> and \<^verbatim>\<open>runTasks\<close> returns
  \<^verbatim>\<open>last\<close>. In the earlier text \<^verbatim>\<open>execute\<close> and \<^verbatim>\<open>runTasks\<close> return nothing, a list passes the
  context object to every child, and the action of a bucket calls a method
  \<^verbatim>\<open>executeTasks\<close> that no class has; the guard of the mutators, the loop of \<^verbatim>\<open>runTasks\<close>,
  \<^verbatim>\<open>stayIdle\<close>, \<^verbatim>\<open>checkDone\<close> and the listeners of the bucket are the same in both.

  Objects live in a store and are addressed by reference, because a bucket and its lists
  share the same \<^verbatim>\<open>Task\<close> objects. An asynchronous function is a frame that is suspended at
  an \<^verbatim>\<open>await\<close> and resumed by a later step. The children of a list are \<^verbatim>\<open>Task\<close> objects, and
  there is one bucket.
\<close>

subsection \<open>Values\<close>

datatype oref = TaskRef nat | ListRef nat | BucketRef

text \<open>
  JavaScript values as far as the module looks at them. \<open>ErrorObj\<close> is an instance of
  \<^verbatim>\<open>Error\<close> with its message; \<open>Unhandled v\<close> is the \<^verbatim>\<open>ERR_UNHANDLED_ERROR\<close> instance that
  Node's \<^verbatim>\<open>EventEmitter\<close> creates around a value \<open>v\<close> that is no \<^verbatim>\<open>Error\<close>; \<open>Obj a\<close> is a
  reference to a plain object; \<open>Context state last controller\<close> is the object literal
  \<^verbatim>\<open>{state, last, controller}\<close>. Numbers are integers or \<open>NaN\<close>.
\<close>

datatype val =
    Undefined | Null | Bool bool | Num int | NaN | Str string
  | ErrorObj string | Unhandled val
  | Obj nat | Arr "val list" | Context val val oref

text \<open>What \<^verbatim>\<open>input || {}\<close> tests: the falsy values.\<close>

fun falsy :: "val \<Rightarrow> bool" where
  "falsy Undefined = True"
| "falsy Null = True"
| "falsy (Bool b) = (\<not> b)"
| "falsy (Num n) = (n = 0)"
| "falsy NaN = True"
| "falsy (Str s) = (s = [])"
| "falsy (ErrorObj m) = False"
| "falsy (Unhandled v) = False"
| "falsy (Obj a) = False"
| "falsy (Arr vs) = False"
| "falsy (Context s l c) = False"

fun instanceofError :: "val \<Rightarrow> bool" where
  "instanceofError (ErrorObj m) = True"
| "instanceofError (Unhandled v) = True"
| "instanceofError Undefined = False"
| "instanceofError Null = False"
| "instanceofError (Bool b) = False"
| "instanceofError (Num n) = False"
| "instanceofError NaN = False"
| "instanceofError (Str s) = False"
| "instanceofError (Obj a) = False"
| "instanceofError (Arr vs) = False"
| "instanceofError (Context s l c) = False"

subsection \<open>The classes\<close>

text \<open>The strings \<^verbatim>\<open>'created'\<close>, \<^verbatim>\<open>'execute'\<close>, \<^verbatim>\<open>'done'\<close> and \<^verbatim>\<open>'error'\<close> of the field \<^verbatim>\<open>status\<close>.\<close>

datatype status = Created | Execute | Done | Err

text \<open>
  An action is a function from its input to the value its promise resolves with (\<open>Inr\<close>) or
  the value it throws or rejects with (\<open>Inl\<close>); it does not touch the objects of the store.
  \<open>RunTasks\<close> is the closure \<^verbatim>\<open>(input, t) => t.runTasks(input)\<close> that the constructors of
  \<^verbatim>\<open>TaskList\<close> and \<^verbatim>\<open>TaskBucket\<close> pass on.
\<close>

datatype action = Action "val \<Rightarrow> val + val" | RunTasks

text \<open>
  A registered listener. \<open>On\<close> and \<open>Once\<close> are listeners of outside code, which observe only
  (\<^verbatim>\<open>toPromise\<close> registers two with \<^verbatim>\<open>once\<close>); \<open>Bubble l\<close> is one of the four listeners that
  \<^verbatim>\<open>TaskList\<close> \<open>l\<close> puts on a child in \<^verbatim>\<open>runTasks\<close>; \<open>Pool\<close> is one of the five listeners that the
  \<^verbatim>\<open>TaskBucket\<close> puts on a list it creates.
\<close>

datatype listener = On | Once | Bubble nat | Pool

record task =
  ticks :: int
  totalTicks :: int
  isTicking :: bool
  description :: string
  action :: action
  result :: val
  error :: val
  status :: status
  listeners :: "(string \<times> listener) list"

record taskWithQueue = task +
  tasks :: "nat list"
  taskIndex :: nat

text \<open>
  The frame of a running \<^verbatim>\<open>TaskList.execute\<close>: the locals \<^verbatim>\<open>state\<close>, \<^verbatim>\<open>last\<close> and \<^verbatim>\<open>input\<close> of
  \<^verbatim>\<open>runTasks\<close> and the place where it is suspended. \<open>AwaitTask state last input u out\<close> waits
  at \<^verbatim>\<open>await task.execute(...)\<close> for the action of child \<open>u\<close>, which will settle as \<open>out\<close>;
  \<open>AwaitImmediate state last input\<close> waits in \<^verbatim>\<open>stayIdle\<close> at \<^verbatim>\<open>await immediate()\<close>;
  \<open>Settled r\<close> is the settled promise of \<^verbatim>\<open>execute\<close>.
\<close>

datatype frame =
    NotRunning
  | AwaitTask val val val nat "val + val"
  | AwaitImmediate val val val
  | Settled "val + val"

record taskList = taskWithQueue +
  wait :: bool
  empty :: bool
  isQueue :: bool
  controller :: oref
  frame :: frame

text \<open>The frame of \<^verbatim>\<open>TaskBucket.execute\<close>: suspended at \<^verbatim>\<open>await Promise.all(...)\<close>, or settled.\<close>

datatype bframe = BNotRunning | AwaitAll val | BSettled "val + val"

record taskBucket = taskWithQueue +
  taskLists :: "nat list"
  parallel :: int
  collect :: "(task list \<Rightarrow> val \<Rightarrow> val + val) option"
  clearing :: bool
  bframe :: bframe

text \<open>The constructors, with their defaults filled in by the caller.\<close>

definition new_Task :: "action \<Rightarrow> string \<Rightarrow> bool \<Rightarrow> int \<Rightarrow> task" where
  "new_Task a d i t =
     \<lparr>ticks = 0, totalTicks = t, isTicking = i, description = d, action = a,
      result = Undefined, error = Undefined, status = Created, listeners = []\<rparr>"

text \<open>
  \<^verbatim>\<open>TaskWithQueue\<close> calls \<^verbatim>\<open>super\<close> with \<^verbatim>\<open>isTicking: true\<close> and \<^verbatim>\<open>totalTicks: tasks.length\<close>;
  \<open>self\<close> is the reference of the list under construction, for \<^verbatim>\<open>controller || this\<close>.
\<close>

definition new_TaskList :: "oref \<Rightarrow> nat list \<Rightarrow> string \<Rightarrow> oref option \<Rightarrow> bool \<Rightarrow> taskList" where
  "new_TaskList self ts d c q =
     \<lparr>ticks = 0, totalTicks = int (length ts), isTicking = True, description = d,
      action = RunTasks, result = Undefined, error = Undefined, status = Created,
      listeners = [], tasks = ts, taskIndex = 0,
      wait = False, empty = False, isQueue = q,
      controller = (case c of None \<Rightarrow> self | Some r \<Rightarrow> r), frame = NotRunning\<rparr>"

definition new_TaskBucket ::
  "nat list \<Rightarrow> int \<Rightarrow> string \<Rightarrow> (task list \<Rightarrow> val \<Rightarrow> val + val) option \<Rightarrow> taskBucket" where
  "new_TaskBucket ts p d c =
     \<lparr>ticks = 0, totalTicks = int (length ts), isTicking = True, description = d,
      action = RunTasks, result = Undefined, error = Undefined, status = Created,
      listeners = [], tasks = ts, taskIndex = 0,
      taskLists = [], parallel = p, collect = c, clearing = False, bframe = BNotRunning\<rparr>"

subsection \<open>TaskWithQueue: the guard and the two mutators\<close>

definition allowTaskAddition :: "'a task_scheme \<Rightarrow> bool" where
  "allowTaskAddition t = (status t \<noteq> Done \<and> status t \<noteq> Err)"

text \<open>The override of \<^verbatim>\<open>TaskBucket\<close>.\<close>

definition allowTaskAddition_bucket :: "'a taskBucket_scheme \<Rightarrow> bool" where
  "allowTaskAddition_bucket b = (\<not> clearing b \<and> allowTaskAddition b)"

definition cantAdd :: val where
  "cantAdd = ErrorObj (''Can'' @ [CHR 0x27] @ ''t add tasks after list is finished or a task failed'')"

text \<open>
  \<^verbatim>\<open>prependTask\<close> and \<^verbatim>\<open>addTask\<close>. The first argument is what the call
  \<^verbatim>\<open>this.allowTaskAddition()\<close> returned, which depends on the class of \<^verbatim>\<open>this\<close>.
  \<^verbatim>\<open>splice(taskIndex, 0, task)\<close> inserts at the end when the index is beyond it.
\<close>

definition prependTask :: "bool \<Rightarrow> nat \<Rightarrow> 'a taskWithQueue_scheme \<Rightarrow> val + 'a taskWithQueue_scheme" where
  "prependTask allowed u q =
     (if allowed then Inl cantAdd
      else Inr (q\<lparr>tasks := take (taskIndex q) (tasks q) @ u # drop (taskIndex q) (tasks q),
                  totalTicks := totalTicks q + 1\<rparr>))"

definition addTask :: "bool \<Rightarrow> nat \<Rightarrow> 'a taskWithQueue_scheme \<Rightarrow> val + 'a taskWithQueue_scheme" where
  "addTask allowed u q =
     (if allowed then Inl cantAdd
      else Inr (q\<lparr>tasks := tasks q @ [u], totalTicks := totalTicks q + 1\<rparr>))"

definition prependTask_queue :: "nat \<Rightarrow> 'a taskWithQueue_scheme \<Rightarrow> val + 'a taskWithQueue_scheme" where
  "prependTask_queue u q = prependTask (allowTaskAddition q) u q"

definition addTask_queue :: "nat \<Rightarrow> 'a taskWithQueue_scheme \<Rightarrow> val + 'a taskWithQueue_scheme" where
  "addTask_queue u q = addTask (allowTaskAddition q) u q"

definition prependTask_bucket :: "nat \<Rightarrow> 'a taskBucket_scheme \<Rightarrow> val + 'a taskBucket_scheme" where
  "prependTask_bucket u b = prependTask (allowTaskAddition_bucket b) u b"

definition addTask_bucket :: "nat \<Rightarrow> 'a taskBucket_scheme \<Rightarrow> val + 'a taskBucket_scheme" where
  "addTask_bucket u b = addTask (allowTaskAddition_bucket b) u b"

subsection \<open>The store\<close>

text \<open>
  One emission: the emitter, the event name, the error passed along (\<open>Undefined\<close> for every
  event but \<^verbatim>\<open>'error'\<close> and \<^verbatim>\<open>'child/error'\<close>), the object passed along, and the \<^verbatim>\<open>ticks\<close> a
  listener reads from that object at this moment.
\<close>

datatype emission =
  Emit (emitter: oref) (event: string) (failure: val) (subject: oref) (shown: int)

text \<open>
  The store holds the \<^verbatim>\<open>Task\<close> objects, the \<^verbatim>\<open>TaskList\<close> objects, one \<^verbatim>\<open>TaskBucket\<close> and
  the plain objects with their properties. \<open>nextList\<close> and \<open>nextObj\<close> are the next fresh
  references for \<^verbatim>\<open>new TaskList\<close> and for the object literal \<^verbatim>\<open>{}\<close>. \<open>trace\<close> logs every call of \<^verbatim>\<open>emit\<close> and \<open>calls\<close> every call of
  an action of a \<^verbatim>\<open>Task\<close> with its input; nothing reads the two logs.
\<close>

record world =
  taskAt :: "nat \<Rightarrow> task"
  listAt :: "nat \<Rightarrow> taskList"
  theBucket :: taskBucket
  nextList :: nat
  objAt :: "nat \<Rightarrow> (string \<times> val) list"
  nextObj :: nat
  trace :: "emission list"
  calls :: "(nat \<times> val) list"

definition ticksOf :: "oref \<Rightarrow> world \<Rightarrow> int" where
  "ticksOf r w = (case r of TaskRef u \<Rightarrow> ticks (taskAt w u)
                  | ListRef l \<Rightarrow> ticks (listAt w l) | BucketRef \<Rightarrow> ticks (theBucket w))"

definition statusOf :: "oref \<Rightarrow> world \<Rightarrow> status" where
  "statusOf r w = (case r of TaskRef u \<Rightarrow> status (taskAt w u)
                   | ListRef l \<Rightarrow> status (listAt w l) | BucketRef \<Rightarrow> status (theBucket w))"

definition resultOf :: "oref \<Rightarrow> world \<Rightarrow> val" where
  "resultOf r w = (case r of TaskRef u \<Rightarrow> result (taskAt w u)
                   | ListRef l \<Rightarrow> result (listAt w l) | BucketRef \<Rightarrow> result (theBucket w))"

definition errorOf :: "oref \<Rightarrow> world \<Rightarrow> val" where
  "errorOf r w = (case r of TaskRef u \<Rightarrow> error (taskAt w u)
                  | ListRef l \<Rightarrow> error (listAt w l) | BucketRef \<Rightarrow> error (theBucket w))"

definition listenersOf :: "oref \<Rightarrow> world \<Rightarrow> (string \<times> listener) list" where
  "listenersOf r w = (case r of TaskRef u \<Rightarrow> listeners (taskAt w u)
                      | ListRef l \<Rightarrow> listeners (listAt w l) | BucketRef \<Rightarrow> listeners (theBucket w))"

definition set_ticks :: "oref \<Rightarrow> int \<Rightarrow> world \<Rightarrow> world" where
  "set_ticks r t w = (case r of
       TaskRef u \<Rightarrow> w\<lparr>taskAt := (taskAt w)(u := (taskAt w u)\<lparr>ticks := t\<rparr>)\<rparr>
     | ListRef l \<Rightarrow> w\<lparr>listAt := (listAt w)(l := (listAt w l)\<lparr>ticks := t\<rparr>)\<rparr>
     | BucketRef \<Rightarrow> w\<lparr>theBucket := (theBucket w)\<lparr>ticks := t\<rparr>\<rparr>)"

definition set_status :: "oref \<Rightarrow> status \<Rightarrow> world \<Rightarrow> world" where
  "set_status r s w = (case r of
       TaskRef u \<Rightarrow> w\<lparr>taskAt := (taskAt w)(u := (taskAt w u)\<lparr>status := s\<rparr>)\<rparr>
     | ListRef l \<Rightarrow> w\<lparr>listAt := (listAt w)(l := (listAt w l)\<lparr>status := s\<rparr>)\<rparr>
     | BucketRef \<Rightarrow> w\<lparr>theBucket := (theBucket w)\<lparr>status := s\<rparr>\<rparr>)"

definition set_result :: "oref \<Rightarrow> val \<Rightarrow> world \<Rightarrow> world" where
  "set_result r v w = (case r of
       TaskRef u \<Rightarrow> w\<lparr>taskAt := (taskAt w)(u := (taskAt w u)\<lparr>result := v\<rparr>)\<rparr>
     | ListRef l \<Rightarrow> w\<lparr>listAt := (listAt w)(l := (listAt w l)\<lparr>result := v\<rparr>)\<rparr>
     | BucketRef \<Rightarrow> w\<lparr>theBucket := (theBucket w)\<lparr>result := v\<rparr>\<rparr>)"

definition set_error :: "oref \<Rightarrow> val \<Rightarrow> world \<Rightarrow> world" where
  "set_error r v w = (case r of
       TaskRef u \<Rightarrow> w\<lparr>taskAt := (taskAt w)(u := (taskAt w u)\<lparr>error := v\<rparr>)\<rparr>
     | ListRef l \<Rightarrow> w\<lparr>listAt := (listAt w)(l := (listAt w l)\<lparr>error := v\<rparr>)\<rparr>
     | BucketRef \<Rightarrow> w\<lparr>theBucket := (theBucket w)\<lparr>error := v\<rparr>\<rparr>)"

definition set_listeners :: "oref \<Rightarrow> (string \<times> listener) list \<Rightarrow> world \<Rightarrow> world" where
  "set_listeners r ls w = (case r of
       TaskRef u \<Rightarrow> w\<lparr>taskAt := (taskAt w)(u := (taskAt w u)\<lparr>listeners := ls\<rparr>)\<rparr>
     | ListRef l \<Rightarrow> w\<lparr>listAt := (listAt w)(l := (listAt w l)\<lparr>listeners := ls\<rparr>)\<rparr>
     | BucketRef \<Rightarrow> w\<lparr>theBucket := (theBucket w)\<lparr>listeners := ls\<rparr>\<rparr>)"

subsection \<open>EventEmitter\<close>

text \<open>
  \<^verbatim>\<open>Task\<close> extends the \<^verbatim>\<open>EventEmitter\<close> of Node's \<^verbatim>\<open>events\<close> module, which is not part of
  the repository. What the module relies on: \<^verbatim>\<open>on\<close> and \<^verbatim>\<open>once\<close> append a listener;
  \<^verbatim>\<open>emit\<close> calls the listeners registered for the name, synchronously and in the order of
  registration, and an exception of a listener leaves \<^verbatim>\<open>emit\<close>; a \<^verbatim>\<open>once\<close> listener is
  removed when it is called; and \<^verbatim>\<open>emit('error', e, ...)\<close> on an emitter with no listener
  for \<^verbatim>\<open>'error'\<close> throws: \<open>e\<close> itself when it is an \<^verbatim>\<open>Error\<close>, a new
  \<^verbatim>\<open>ERR_UNHANDLED_ERROR\<close> otherwise.

  A function that can throw returns the thrown value (\<open>Some e\<close>) or \<open>None\<close>, and the store
  as the statements before the throw left it.
\<close>

definition unhandled :: "(string \<times> listener) list \<Rightarrow> string \<Rightarrow> bool" where
  "unhandled ls name = (name = ''error'' \<and> ''error'' \<notin> set (map fst ls))"

definition rethrown :: "val \<Rightarrow> val" where
  "rethrown e = (if instanceofError e then e else Unhandled e)"

fun stays :: "string \<Rightarrow> string \<times> listener \<Rightarrow> bool" where
  "stays name (n, k) = (\<not> (n = name \<and> k = Once))"

definition logged :: "oref \<Rightarrow> string \<Rightarrow> val \<Rightarrow> oref \<Rightarrow> world \<Rightarrow> world" where
  "logged r name e c w = w\<lparr>trace := trace w @ [Emit r name e c (ticksOf c w)]\<rparr>"

definition emit_bucket :: "string \<Rightarrow> val \<Rightarrow> oref \<Rightarrow> world \<Rightarrow> val option \<times> world" where
  "emit_bucket name e c w =
     (let w1 = logged BucketRef name e c w; ls = listeners (theBucket w1)
      in if unhandled ls name then (Some (rethrown e), w1)
         else (None, set_listeners BucketRef (filter (stays name) ls) w1))"

text \<open>\<^verbatim>\<open>progress\<close> of the bucket, as its listener for \<^verbatim>\<open>'child/done'\<close> calls it.\<close>

definition progress_bucket :: "int \<Rightarrow> world \<Rightarrow> val option \<times> world" where
  "progress_bucket t w = emit_bucket ''progress'' Undefined BucketRef (set_ticks BucketRef t w)"

subsection \<open>TaskList: pause, resume; TaskBucket: checkDone and the listeners on a pool list\<close>

definition pause :: "nat \<Rightarrow> world \<Rightarrow> world" where
  "pause l w = w\<lparr>listAt := (listAt w)(l := (listAt w l)\<lparr>wait := True\<rparr>)\<rparr>"

definition resume :: "nat \<Rightarrow> world \<Rightarrow> world" where
  "resume l w = w\<lparr>listAt := (listAt w)(l := (listAt w l)\<lparr>wait := False\<rparr>)\<rparr>"

definition checkDone :: "world \<Rightarrow> world" where
  "checkDone w =
     (if list_all (\<lambda>l. empty (listAt w l)) (taskLists (theBucket w))
      then fold resume (taskLists (theBucket w)) w
      else w)"

text \<open>
  The listener for \<^verbatim>\<open>'empty'\<close>, called with the list \<open>l\<close> that emitted. The argument
  \<^verbatim>\<open>this.tasks[this.taskIndex++]\<close> is evaluated before \<^verbatim>\<open>list.addTask\<close> is called, so the
  index stays incremented when \<^verbatim>\<open>addTask\<close> throws.
\<close>

definition feed :: "nat \<Rightarrow> world \<Rightarrow> val option \<times> world" where
  "feed l w =
     (let b = theBucket w in
      if length (tasks b) \<le> taskIndex b then (None, checkDone w)
      else
        let u = tasks b ! taskIndex b;
            w1 = w\<lparr>theBucket := b\<lparr>taskIndex := taskIndex b + 1\<rparr>\<rparr>
        in case addTask_queue u (listAt w1 l) of
             Inl e \<Rightarrow> (Some e, w1)
           | Inr q \<Rightarrow> (None, w1\<lparr>listAt := (listAt w1)(l := q)\<rparr>))"

text \<open>
  What a \<open>Pool\<close> listener does, by the name it is registered for: three names are emitted
  again on the bucket, \<^verbatim>\<open>'child/done'\<close> is emitted again and counted, \<^verbatim>\<open>'empty'\<close> feeds.
  The only emission of \<^verbatim>\<open>'empty'\<close> passes the emitting list.
\<close>

definition pool :: "string \<Rightarrow> val \<Rightarrow> oref \<Rightarrow> world \<Rightarrow> val option \<times> world" where
  "pool name e c w =
     (if name = ''child/error'' then emit_bucket ''child/error'' e c w
      else if name = ''child/execute'' then emit_bucket ''child/execute'' Undefined c w
      else if name = ''child/progress'' then emit_bucket ''child/progress'' Undefined c w
      else if name = ''child/done'' then
        (case emit_bucket ''child/done'' Undefined c w of
           (Some x, w1) \<Rightarrow> (Some x, w1)
         | (None, w1) \<Rightarrow> progress_bucket (ticks (theBucket w1) + 1) w1)
      else if name = ''empty'' then
        (case c of ListRef l \<Rightarrow> feed l w | TaskRef u \<Rightarrow> (None, w) | BucketRef \<Rightarrow> (None, w))
      else (None, w))"

fun notify_list ::
  "(string \<times> listener) list \<Rightarrow> string \<Rightarrow> val \<Rightarrow> oref \<Rightarrow> world \<Rightarrow> val option \<times> world" where
  "notify_list [] name e c w = (None, w)"
| "notify_list ((n, k) # ls) name e c w =
     (if n = name \<and> k = Pool then
        (case pool name e c w of
           (Some x, w1) \<Rightarrow> (Some x, w1)
         | (None, w1) \<Rightarrow> notify_list ls name e c w1)
      else notify_list ls name e c w)"

definition emit_list :: "nat \<Rightarrow> string \<Rightarrow> val \<Rightarrow> oref \<Rightarrow> world \<Rightarrow> val option \<times> world" where
  "emit_list l name e c w =
     (let w1 = logged (ListRef l) name e c w; ls = listeners (listAt w1 l)
      in if unhandled ls name then (Some (rethrown e), w1)
         else notify_list ls name e c (set_listeners (ListRef l) (filter (stays name) ls) w1))"

text \<open>A \<open>Bubble l\<close> listener emits the event again on list \<open>l\<close> under \<^verbatim>\<open>'child/'\<close> and its name.\<close>

fun notify_task ::
  "(string \<times> listener) list \<Rightarrow> string \<Rightarrow> val \<Rightarrow> oref \<Rightarrow> world \<Rightarrow> val option \<times> world" where
  "notify_task [] name e c w = (None, w)"
| "notify_task ((n, k) # ls) name e c w =
     (case (if n = name then k else On) of
        Bubble l \<Rightarrow>
          (case emit_list l (''child/'' @ name) e c w of
             (Some x, w1) \<Rightarrow> (Some x, w1)
           | (None, w1) \<Rightarrow> notify_task ls name e c w1)
      | On \<Rightarrow> notify_task ls name e c w
      | Once \<Rightarrow> notify_task ls name e c w
      | Pool \<Rightarrow> notify_task ls name e c w)"

definition emit_task :: "nat \<Rightarrow> string \<Rightarrow> val \<Rightarrow> oref \<Rightarrow> world \<Rightarrow> val option \<times> world" where
  "emit_task u name e c w =
     (let w1 = logged (TaskRef u) name e c w; ls = listeners (taskAt w1 u)
      in if unhandled ls name then (Some (rethrown e), w1)
         else notify_task ls name e c (set_listeners (TaskRef u) (filter (stays name) ls) w1))"

definition emit :: "oref \<Rightarrow> string \<Rightarrow> val \<Rightarrow> oref \<Rightarrow> world \<Rightarrow> val option \<times> world" where
  "emit r name e c w = (case r of TaskRef u \<Rightarrow> emit_task u name e c w
                         | ListRef l \<Rightarrow> emit_list l name e c w
                         | BucketRef \<Rightarrow> emit_bucket name e c w)"

subsection \<open>Task: state, progress, execute, toPromise\<close>

fun statusName :: "status \<Rightarrow> string" where
  "statusName Created = ''created''"
| "statusName Execute = ''execute''"
| "statusName Done = ''done''"
| "statusName Err = ''error''"

text \<open>\<^verbatim>\<open>state\<close> is called with \<^verbatim>\<open>'execute'\<close> and \<^verbatim>\<open>'done'\<close> only.\<close>

definition state :: "oref \<Rightarrow> status \<Rightarrow> world \<Rightarrow> val option \<times> world" where
  "state r s w = emit r (statusName s) Undefined r (set_status r s w)"

definition progress :: "oref \<Rightarrow> int \<Rightarrow> world \<Rightarrow> val option \<times> world" where
  "progress r t w = emit r ''progress'' Undefined r (set_ticks r t w)"

text \<open>
  \<^verbatim>\<open>execute\<close> is an asynchronous function, split at its \<^verbatim>\<open>await\<close>. \<open>execute_catch\<close> is the
  \<^verbatim>\<open>catch\<close> block: an \<^verbatim>\<open>emit\<close> that throws leaves it before the status is assigned.
  \<open>execute_leave r out\<close> is what follows the \<^verbatim>\<open>await\<close> when the action has settled as \<open>out\<close>;
  it returns how the promise of \<^verbatim>\<open>execute\<close> settles.
\<close>

definition execute_catch :: "oref \<Rightarrow> val \<Rightarrow> world \<Rightarrow> (val + val) \<times> world" where
  "execute_catch r e w =
     (case emit r ''error'' e r (set_error r e w) of
        (Some x, w1) \<Rightarrow> (Inl x, w1)
      | (None, w1) \<Rightarrow> (Inl e, set_status r Err w1))"

definition execute_leave :: "oref \<Rightarrow> val + val \<Rightarrow> world \<Rightarrow> (val + val) \<times> world" where
  "execute_leave r out w =
     (case out of
        Inl e \<Rightarrow> execute_catch r e w
      | Inr v \<Rightarrow>
          (case state r Done (set_result r v w) of
             (Some x, w1) \<Rightarrow> execute_catch r x w1
           | (None, w1) \<Rightarrow> (Inr (resultOf r w1), w1)))"

text \<open>
  What calling an action with \<open>x\<close> gives. A plain \<^verbatim>\<open>Task\<close> has no method \<^verbatim>\<open>runTasks\<close>, so
  the closure of the queue classes throws a \<^verbatim>\<open>TypeError\<close> on it.
\<close>

fun behaviour :: "action \<Rightarrow> val \<Rightarrow> val + val" where
  "behaviour (Action f) x = f x"
| "behaviour RunTasks x = Inl (ErrorObj ''t.runTasks is not a function'')"

definition invoke :: "nat \<Rightarrow> val \<Rightarrow> world \<Rightarrow> (val + val) \<times> world" where
  "invoke u x w = (behaviour (action (taskAt w u)) x, w\<lparr>calls := calls w @ [(u, x)]\<rparr>)"

text \<open>
  \<^verbatim>\<open>execute(x)\<close> of \<^verbatim>\<open>Task\<close> \<open>u\<close> up to its \<^verbatim>\<open>await\<close>; the first component is how the awaited
  action will settle (an exception of \<^verbatim>\<open>state('execute')\<close> goes to the \<^verbatim>\<open>catch\<close> block as
  well).
\<close>

definition execute_enter :: "nat \<Rightarrow> val \<Rightarrow> world \<Rightarrow> (val + val) \<times> world" where
  "execute_enter u x w =
     (case state (TaskRef u) Execute w of
        (Some e, w1) \<Rightarrow> (Inl e, w1)
      | (None, w1) \<Rightarrow> invoke u x w1)"

text \<open>A whole \<^verbatim>\<open>execute(x)\<close> of a \<^verbatim>\<open>Task\<close>, with nothing else running before its action settles.\<close>

definition execute :: "nat \<Rightarrow> val \<Rightarrow> world \<Rightarrow> (val + val) \<times> world" where
  "execute u x w = (case execute_enter u x w of (out, w1) \<Rightarrow> execute_leave (TaskRef u) out w1)"

text \<open>
  \<^verbatim>\<open>toPromise\<close>: a created task is executed with \<^verbatim>\<open>null\<close> (the first component is then how
  the action will settle); otherwise two \<^verbatim>\<open>once\<close> listeners are registered.
\<close>

definition toPromise :: "nat \<Rightarrow> world \<Rightarrow> (val + val) option \<times> world" where
  "toPromise u w =
     (if status (taskAt w u) = Created
      then (case execute_enter u Null w of (out, w1) \<Rightarrow> (Some out, w1))
      else (None, set_listeners (TaskRef u)
                    (listeners (taskAt w u) @ [(''done'', Once), (''error'', Once)]) w))"

subsection \<open>TaskList: runTasks and stayIdle\<close>

text \<open>The four \<^verbatim>\<open>task.on(...)\<close> at the head of the loop body.\<close>

definition subscribe :: "nat \<Rightarrow> nat \<Rightarrow> world \<Rightarrow> world" where
  "subscribe u l w =
     set_listeners (TaskRef u)
       (listeners (taskAt w u) @
          [(''error'', Bubble l), (''execute'', Bubble l), (''progress'', Bubble l), (''done'', Bubble l)]) w"

definition suspend :: "nat \<Rightarrow> frame \<Rightarrow> world \<Rightarrow> world" where
  "suspend l f w = w\<lparr>listAt := (listAt w)(l := (listAt w l)\<lparr>frame := f\<rparr>)\<rparr>"

text \<open>\<^verbatim>\<open>runTasks\<close> has settled as \<open>out\<close>: the rest of \<^verbatim>\<open>execute\<close> of the list.\<close>

definition list_settle :: "nat \<Rightarrow> val + val \<Rightarrow> world \<Rightarrow> world" where
  "list_settle l out w = (case execute_leave (ListRef l) out w of (r, w1) \<Rightarrow> suspend l (Settled r) w1)"

text \<open>
  The \<^verbatim>\<open>while\<close> test of \<^verbatim>\<open>runTasks\<close> with the locals \<open>st\<close>, \<open>lst\<close> and \<open>x\<close>
  (\<^verbatim>\<open>state\<close>, \<^verbatim>\<open>last\<close>, \<^verbatim>\<open>input\<close>): either the body up to \<^verbatim>\<open>await task.execute(...)\<close>, or
  \<^verbatim>\<open>return last\<close>.
\<close>

definition runTasks_loop :: "nat \<Rightarrow> val \<Rightarrow> val \<Rightarrow> val \<Rightarrow> world \<Rightarrow> world" where
  "runTasks_loop l st lst x w =
     (let q = listAt w l in
      if taskIndex q < length (tasks q) then
        let u = tasks q ! taskIndex q;
            w1 = w\<lparr>listAt := (listAt w)(l := q\<lparr>empty := False\<rparr>)\<rparr>;
            w2 = subscribe u l w1;
            arg = (if isQueue q then x else Context st lst (controller q))
        in (case execute_enter u arg w2 of (out, w3) \<Rightarrow> suspend l (AwaitTask st lst x u out) w3)
      else list_settle l (Inr lst) w)"

text \<open>
  The argument of \<^verbatim>\<open>task.execute\<close> in the loop,
  \<^verbatim>\<open>this.isQueue ? input : {state, last, controller: this.controller}\<close>, for list \<open>l\<close> with the
  locals \<open>st\<close>, \<open>lst\<close> and \<open>x\<close>.
\<close>

definition given :: "world \<Rightarrow> nat \<Rightarrow> val \<Rightarrow> val \<Rightarrow> val \<Rightarrow> val" where
  "given w l st lst x =
     (if isQueue (listAt w l) then x else Context st lst (controller (listAt w l)))"

text \<open>
  The action of the awaited child has settled: the rest of the child's \<^verbatim>\<open>execute\<close>, then the
  rest of the loop body, \<^verbatim>\<open>this.progress(this.taskIndex++)\<close> and the test for the end of
  the queue, up to the next \<^verbatim>\<open>await\<close>. The steps in between that only hand a settled
  promise over touch no other object and are not separated.
\<close>

definition after_task :: "nat \<Rightarrow> world \<Rightarrow> world" where
  "after_task l w =
     (case frame (listAt w l) of
        AwaitTask st lst x u out \<Rightarrow>
          (case execute_leave (TaskRef u) out w of
             (Inl e, w1) \<Rightarrow> list_settle l (Inl e) w1
           | (Inr v, w1) \<Rightarrow>
               (let k = taskIndex (listAt w1 l);
                    w2 = w1\<lparr>listAt := (listAt w1)(l := (listAt w1 l)\<lparr>taskIndex := k + 1\<rparr>)\<rparr>
                in case progress (ListRef l) (int k) w2 of
                     (Some e, w3) \<Rightarrow> list_settle l (Inl e) w3
                   | (None, w3) \<Rightarrow>
                       if length (tasks (listAt w3 l)) \<le> taskIndex (listAt w3 l) then
                         (case emit (ListRef l) ''empty'' Undefined (ListRef l) w3 of
                            (Some e, w4) \<Rightarrow> list_settle l (Inl e) w4
                          | (None, w4) \<Rightarrow>
                              suspend l (AwaitImmediate st v x)
                                (w4\<lparr>listAt := (listAt w4)(l := (listAt w4 l)\<lparr>empty := True\<rparr>)\<rparr>))
                       else runTasks_loop l st v x w3))
      | NotRunning \<Rightarrow> w
      | AwaitImmediate st lst x \<Rightarrow> w
      | Settled r \<Rightarrow> w)"

text \<open>
  One round of the \<^verbatim>\<open>do ... while (this.wait)\<close> of \<^verbatim>\<open>stayIdle\<close>: the immediate has fired; the
  list waits for the next one, or \<^verbatim>\<open>stayIdle\<close> returns and the \<^verbatim>\<open>while\<close> test follows.
\<close>

definition after_immediate :: "nat \<Rightarrow> world \<Rightarrow> world" where
  "after_immediate l w =
     (case frame (listAt w l) of
        AwaitImmediate st lst x \<Rightarrow> (if wait (listAt w l) then w else runTasks_loop l st lst x w)
      | NotRunning \<Rightarrow> w
      | AwaitTask st lst x u out \<Rightarrow> w
      | Settled r \<Rightarrow> w)"

text \<open>
  \<^verbatim>\<open>runTasks(x)\<close> up to its first suspension: \<^verbatim>\<open>let state = input || {}\<close>, where the object
  literal is a new object without properties, \<^verbatim>\<open>let last = false\<close>, then the loop.
\<close>

definition runTasks :: "nat \<Rightarrow> val \<Rightarrow> world \<Rightarrow> world" where
  "runTasks l x w =
     (if falsy x
      then runTasks_loop l (Obj (nextObj w)) (Bool False) x
             (w\<lparr>objAt := (objAt w)(nextObj w := []), nextObj := nextObj w + 1\<rparr>)
      else runTasks_loop l x (Bool False) x w)"

text \<open>\<^verbatim>\<open>execute(x)\<close> of list \<open>l\<close> up to its first suspension.\<close>

definition list_execute :: "nat \<Rightarrow> val \<Rightarrow> world \<Rightarrow> world" where
  "list_execute l x w =
     (case state (ListRef l) Execute w of
        (Some e, w1) \<Rightarrow> list_settle l (Inl e) w1
      | (None, w1) \<Rightarrow> runTasks l x w1)"

text \<open>
  A list running alone: after \<^verbatim>\<open>execute\<close>, the pending child action settles or the pending
  immediate fires, until the promise of \<^verbatim>\<open>execute\<close> is settled. The first argument bounds
  the number of such steps; \<open>None\<close> says that the promise is still pending after them.
\<close>

fun drain :: "nat \<Rightarrow> nat \<Rightarrow> world \<Rightarrow> world option" where
  "drain 0 l w = (case frame (listAt w l) of Settled r \<Rightarrow> Some w
                  | NotRunning \<Rightarrow> None | AwaitTask st lst x u out \<Rightarrow> None
                  | AwaitImmediate st lst x \<Rightarrow> None)"
| "drain (Suc n) l w =
     (case frame (listAt w l) of
        Settled r \<Rightarrow> Some w
      | NotRunning \<Rightarrow> None
      | AwaitTask st lst x u out \<Rightarrow> drain n l (after_task l w)
      | AwaitImmediate st lst x \<Rightarrow> drain n l (after_immediate l w))"

definition list_run :: "nat \<Rightarrow> nat \<Rightarrow> val \<Rightarrow> world \<Rightarrow> world option" where
  "list_run n l x w = drain n l (list_execute l x w)"

subsection \<open>TaskBucket: runTasks\<close>

definition pool_listeners :: "(string \<times> listener) list" where
  "pool_listeners =
     [(''child/error'', Pool), (''child/execute'', Pool), (''child/progress'', Pool),
      (''child/done'', Pool), (''empty'', Pool)]"

text \<open>
  The first loop of \<^verbatim>\<open>runTasks\<close>, which adds one list per round while
  \<^verbatim>\<open>this.taskLists.length < this.parallel\<close>; the argument is the number of rounds.
\<close>

fun make_lists :: "nat \<Rightarrow> world \<Rightarrow> world" where
  "make_lists 0 w = w"
| "make_lists (Suc n) w =
     (let l = nextList w;
          t = new_TaskList (ListRef l) [] ''no description given'' (Some BucketRef) True;
          w1 = pause l (w\<lparr>listAt := (listAt w)(l := t), nextList := l + 1\<rparr>);
          w2 = set_listeners (ListRef l) (listeners (listAt w1 l) @ pool_listeners) w1;
          w3 = w2\<lparr>theBucket := (theBucket w2)\<lparr>taskLists := taskLists (theBucket w2) @ [l]\<rparr>\<rparr>
      in make_lists n w3)"

fun rejected :: "frame \<Rightarrow> bool" where
  "rejected (Settled (Inl e)) = True"
| "rejected (Settled (Inr v)) = False"
| "rejected NotRunning = False"
| "rejected (AwaitTask st lst x u out) = False"
| "rejected (AwaitImmediate st lst x) = False"

fun fulfilled :: "frame \<Rightarrow> bool" where
  "fulfilled (Settled (Inr v)) = True"
| "fulfilled (Settled (Inl e)) = False"
| "fulfilled NotRunning = False"
| "fulfilled (AwaitTask st lst x u out) = False"
| "fulfilled (AwaitImmediate st lst x) = False"

definition bucket_settle :: "val + val \<Rightarrow> world \<Rightarrow> world" where
  "bucket_settle out w =
     (case execute_leave BucketRef out w of
        (r, w1) \<Rightarrow> w1\<lparr>theBucket := (theBucket w1)\<lparr>bframe := BSettled r\<rparr>\<rparr>)"

text \<open>
  \<^verbatim>\<open>await Promise.all(...)\<close>: the bucket goes on when a list has rejected, with that error, or
  when all lists have fulfilled, with the rest of \<^verbatim>\<open>runTasks\<close>. It is looked at after every
  step of a list, so the first rejected list is the first in time.
\<close>

definition after_all :: "world \<Rightarrow> world" where
  "after_all w =
     (let b = theBucket w in
      case bframe b of
        AwaitAll x \<Rightarrow>
          (case find (\<lambda>l. rejected (frame (listAt w l))) (taskLists b) of
             Some l \<Rightarrow>
               (case frame (listAt w l) of
                  Settled (Inl e) \<Rightarrow> bucket_settle (Inl e) w
                | Settled (Inr v) \<Rightarrow> w
                | NotRunning \<Rightarrow> w
                | AwaitTask st lst y u out \<Rightarrow> w
                | AwaitImmediate st lst y \<Rightarrow> w)
           | None \<Rightarrow>
               if list_all (\<lambda>l. fulfilled (frame (listAt w l))) (taskLists b) then
                 bucket_settle
                   (case collect b of
                      Some f \<Rightarrow> f (map (taskAt w) (tasks b)) x
                    | None \<Rightarrow> Inr (Arr (map (\<lambda>u. result (taskAt w u)) (tasks b)))) w
               else w)
      | BNotRunning \<Rightarrow> w
      | BSettled r \<Rightarrow> w)"

text \<open>\<^verbatim>\<open>execute(x)\<close> of the bucket up to \<^verbatim>\<open>await Promise.all(...)\<close>.\<close>

definition bucket_execute :: "val \<Rightarrow> world \<Rightarrow> world" where
  "bucket_execute x w =
     (case state BucketRef Execute w of
        (Some e, w1) \<Rightarrow> bucket_settle (Inl e) w1
      | (None, w1) \<Rightarrow>
          (let b = theBucket w1;
               w2 = make_lists (nat (parallel b - int (length (taskLists b)))) w1;
               w3 = fold (\<lambda>l. list_execute l x) (taskLists (theBucket w2)) w2
           in after_all (w3\<lparr>theBucket := (theBucket w3)\<lparr>bframe := AwaitAll x\<rparr>\<rparr>)))"

text \<open>
  What can happen next while the bucket runs: the pending child action of a list settles, or
  the pending immediate of a list fires. A schedule is any sequence of such events.
\<close>

datatype tick = TaskSettles nat | ImmediateFires nat

fun step :: "tick \<Rightarrow> world \<Rightarrow> world" where
  "step (TaskSettles l) w = after_all (after_task l w)"
| "step (ImmediateFires l) w = after_all (after_immediate l w)"

text \<open>The list that an event resumes.\<close>

fun stepped :: "tick \<Rightarrow> nat" where
  "stepped (TaskSettles l) = l"
| "stepped (ImmediateFires l) = l"


definition bucket_run :: "tick list \<Rightarrow> val \<Rightarrow> world \<Rightarrow> world" where
  "bucket_run sched x w = fold step sched (bucket_execute x w)"

subsection \<open>Stores to run on\<close>

text \<open>A store with no listener anywhere; every task returns its input.\<close>

definition blank :: world where
  "blank =
     \<lparr>taskAt = (\<lambda>u. new_Task (Action Inr) ''no description given'' False 0),
      listAt = (\<lambda>l. new_TaskList (ListRef l) [] ''no description given'' None False),
      theBucket = new_TaskBucket [] 10 ''no description given'' None,
      nextList = 0, objAt = (\<lambda>a. []), nextObj = 0, trace = [], calls = []\<rparr>"

definition put_task :: "nat \<Rightarrow> (val \<Rightarrow> val + val) \<Rightarrow> world \<Rightarrow> world" where
  "put_task u f w = w\<lparr>taskAt := (taskAt w)(u := new_Task (Action f) ''no description given'' False 0)\<rparr>"

definition put_list :: "nat \<Rightarrow> nat list \<Rightarrow> world \<Rightarrow> world" where
  "put_list l ts w =
     w\<lparr>listAt := (listAt w)(l := new_TaskList (ListRef l) ts ''no description given'' None False),
       nextList := max (nextList w) (l + 1)\<rparr>"

definition put_bucket :: "nat list \<Rightarrow> int \<Rightarrow> world \<Rightarrow> world" where
  "put_bucket ts p w = w\<lparr>theBucket := new_TaskBucket ts p ''no description given'' None\<rparr>"

text \<open>
  The list of the repository's test: the first task returns 1, the second adds 1 to \<^verbatim>\<open>last\<close>.
\<close>

fun addOne :: "val \<Rightarrow> val + val" where
  "addOne (Context s (Num n) c) = Inr (Num (n + 1))"
| "addOne x = Inr NaN"

definition two_steps :: world where
  "two_steps = put_list 0 [0, 1] (put_task 0 (\<lambda>x. Inr (Num 1)) (put_task 1 addOne blank))"

text \<open>The bucket of the test: three tasks, \<^verbatim>\<open>parallel: 2\<close>.\<close>

definition three_in_two :: world where
  "three_in_two =
     put_bucket [0, 1, 2] 2
       (put_task 0 (\<lambda>x. Inr (Num 10)) (put_task 1 (\<lambda>x. Inr (Num 11)) (put_task 2 (\<lambda>x. Inr (Num 12)) blank)))"

text \<open>The same bucket with its two lists created, the first of them executing.\<close>

definition first_list_executing :: world where
  "first_list_executing = snd (state (ListRef 0) Execute (make_lists 2 three_in_two))"

text \<open>A task that throws an \<^verbatim>\<open>Error\<close>, a task that throws a string, and a list holding the latter.\<close>

definition throws_error :: world where
  "throws_error = put_task 0 (\<lambda>x. Inl (ErrorObj ''boom'')) blank"

definition throws_string :: world where
  "throws_string = put_list 0 [0] (put_task 0 (\<lambda>x. Inl (Str ''boom'')) blank)"

text \<open>A list built with \<^verbatim>\<open>isQueue: true\<close> and the bucket as controller, holding one task.\<close>

definition queue_list :: world where
  "queue_list =
     blank\<lparr>listAt := (listAt blank)
       (0 := new_TaskList (ListRef 0) [0] ''no description given'' (Some BucketRef) True)\<rparr>"


text \<open>A task in a list that has called it: the list listens for \<^verbatim>\<open>'error'\<close> on it.\<close>

definition heard :: world where
  "heard = snd (execute_enter 0 Null (subscribe 0 0 throws_string))"

subsection \<open>What the specification says, in its words\<close>

text \<open>The transitions of \<^verbatim>\<open>status\<close> that the data model allows.\<close>

fun allowed :: "status \<Rightarrow> status \<Rightarrow> bool" where
  "allowed Created Execute = True"
| "allowed Execute Done = True"
| "allowed Execute Err = True"
| "allowed s t = False"


text \<open>
  The previous results along a list, as the specification describes them: the first child
  is given \<open>p\<close>, every later child the result of the child before it, and the list resolves
  with the result of the last child. \<open>mk\<close> builds the input of a child from the previous
  result. The first component lists the previous result given to each child that is
  called; the second is \<open>Inl\<close> when a child fails, and then no later child is called.
\<close>

fun thread :: "(val \<Rightarrow> val + val) list \<Rightarrow> (val \<Rightarrow> val) \<Rightarrow> val \<Rightarrow> val list \<times> (val + val)" where
  "thread [] mk p = ([], Inr p)"
| "thread (f # fs) mk p =
     (case f (mk p) of
        Inl e \<Rightarrow> ([p], Inl e)
      | Inr r \<Rightarrow> (case thread fs mk r of (ps, out) \<Rightarrow> (p # ps, out)))"

text \<open>
  The locals along a run of a list, as the specification describes them: \<open>follows f f'\<close> says
  that the frame \<open>f'\<close> can come after the suspended frame \<open>f\<close>. The state and the input are
  those of \<open>f\<close>; after a child was awaited, the child has fulfilled and \<^verbatim>\<open>last\<close> is the value
  it fulfilled with, or the run has rejected; after an immediate was awaited, \<^verbatim>\<open>last\<close> is
  as before, and a run that settles fulfils with it. \<open>locals_are st x f\<close> says that the
  run has started and that its frame, when it is suspended, holds the state \<open>st\<close> and the
  input \<open>x\<close>.
\<close>

fun follows :: "frame \<Rightarrow> frame \<Rightarrow> bool" where
  "follows (AwaitTask st lst x u out) (AwaitTask st' lst' x' u' out') =
     (st' = st \<and> x' = x \<and> out = Inr lst')"
| "follows (AwaitTask st lst x u out) (AwaitImmediate st' lst' x') =
     (st' = st \<and> x' = x \<and> out = Inr lst')"
| "follows (AwaitTask st lst x u out) (Settled (Inl e)) = True"
| "follows (AwaitTask st lst x u out) (Settled (Inr v)) = False"
| "follows (AwaitTask st lst x u out) NotRunning = False"
| "follows (AwaitImmediate st lst x) (AwaitTask st' lst' x' u' out') =
     (st' = st \<and> x' = x \<and> lst' = lst)"
| "follows (AwaitImmediate st lst x) (AwaitImmediate st' lst' x') =
     (st' = st \<and> x' = x \<and> lst' = lst)"
| "follows (AwaitImmediate st lst x) (Settled r) = (r = Inr lst)"
| "follows (AwaitImmediate st lst x) NotRunning = False"
| "follows NotRunning f = False"
| "follows (Settled r) f = False"



subsection \<open>Relations between stores, for the proofs\<close>

text \<open>
  \<open>same_objects w w'\<close>: from \<open>w\<close> to \<open>w'\<close> only listeners were removed, the bucket's ticks
  changed and emissions were logged. \<open>lists_kept w w'\<close>: the lists, the bucket and the
  actions of the tasks are as before, up to listeners. \<open>lists_settle S w w'\<close>: only lists
  in \<open>S\<close> changed their frame, and no queue, index, task or call changed.
  \<open>runs_alone l us q ctrl acts w\<close>: list \<open>l\<close> has the queue \<open>us\<close>, is not paused and is not
  fed by the bucket, and the tasks have the actions \<open>acts\<close>.
\<close>

definition same_objects :: "world \<Rightarrow> world \<Rightarrow> bool" where
  "same_objects w w' \<longleftrightarrow>
     (\<forall>u. (taskAt w' u)\<lparr>listeners := []\<rparr> = (taskAt w u)\<lparr>listeners := []\<rparr>)
   \<and> (\<forall>l. (listAt w' l)\<lparr>listeners := []\<rparr> = (listAt w l)\<lparr>listeners := []\<rparr>
          \<and> set (listeners (listAt w' l)) \<subseteq> set (listeners (listAt w l)))
   \<and> (theBucket w')\<lparr>listeners := [], ticks := 0\<rparr> = (theBucket w)\<lparr>listeners := [], ticks := 0\<rparr>
   \<and> calls w' = calls w \<and> objAt w' = objAt w \<and> nextObj w' = nextObj w \<and> nextList w' = nextList w"

definition lists_kept :: "world \<Rightarrow> world \<Rightarrow> bool" where
  "lists_kept w w' \<longleftrightarrow>
     (\<forall>l. (listAt w' l)\<lparr>listeners := []\<rparr> = (listAt w l)\<lparr>listeners := []\<rparr>
          \<and> set (listeners (listAt w' l)) \<subseteq> set (listeners (listAt w l)))
   \<and> (\<forall>u. action (taskAt w' u) = action (taskAt w u))
   \<and> (theBucket w')\<lparr>listeners := [], ticks := 0\<rparr> = (theBucket w)\<lparr>listeners := [], ticks := 0\<rparr>
   \<and> objAt w' = objAt w \<and> nextObj w' = nextObj w \<and> nextList w' = nextList w"

definition lists_settle :: "nat set \<Rightarrow> world \<Rightarrow> world \<Rightarrow> bool" where
  "lists_settle S w w' \<longleftrightarrow>
     (\<forall>l. l \<notin> S \<longrightarrow> frame (listAt w' l) = frame (listAt w l))
   \<and> (\<forall>l. tasks (listAt w' l) = tasks (listAt w l) \<and> taskIndex (listAt w' l) = taskIndex (listAt w l))
   \<and> (\<forall>u. (taskAt w' u)\<lparr>listeners := []\<rparr> = (taskAt w u)\<lparr>listeners := []\<rparr>)
   \<and> tasks (theBucket w') = tasks (theBucket w) \<and> taskIndex (theBucket w') = taskIndex (theBucket w)
   \<and> taskLists (theBucket w') = taskLists (theBucket w) \<and> collect (theBucket w') = collect (theBucket w)
   \<and> parallel (theBucket w') = parallel (theBucket w)
   \<and> calls w' = calls w"

definition runs_alone :: "nat \<Rightarrow> nat list \<Rightarrow> bool \<Rightarrow> oref \<Rightarrow> (nat \<Rightarrow> action) \<Rightarrow> world \<Rightarrow> bool" where
  "runs_alone l us q ctrl acts w \<longleftrightarrow>
     tasks (listAt w l) = us \<and> isQueue (listAt w l) = q \<and> controller (listAt w l) = ctrl
   \<and> \<not> wait (listAt w l) \<and> (''empty'', Pool) \<notin> set (listeners (listAt w l))
   \<and> (\<forall>u. action (taskAt w u) = acts u)"

text \<open>
  \<open>quiet w w'\<close>: from \<open>w\<close> to \<open>w'\<close> no frame, no \<^verbatim>\<open>isQueue\<close>, no controller and no action
  changed and nothing was called. \<open>shape_kept l w w'\<close>: the same, but list \<open>l\<close> may have
  another frame and actions may have been called.
\<close>

definition quiet :: "world \<Rightarrow> world \<Rightarrow> bool" where
  "quiet w w' \<longleftrightarrow>
     (\<forall>l. isQueue (listAt w' l) = isQueue (listAt w l)
          \<and> controller (listAt w' l) = controller (listAt w l)
          \<and> frame (listAt w' l) = frame (listAt w l))
   \<and> (\<forall>u. action (taskAt w' u) = action (taskAt w u))
   \<and> calls w' = calls w"

definition shape_kept :: "nat \<Rightarrow> world \<Rightarrow> world \<Rightarrow> bool" where
  "shape_kept l w w' \<longleftrightarrow>
     (\<forall>m. isQueue (listAt w' m) = isQueue (listAt w m)
          \<and> controller (listAt w' m) = controller (listAt w m)
          \<and> (m = l \<or> frame (listAt w' m) = frame (listAt w m)))
   \<and> (\<forall>u. action (taskAt w' u) = action (taskAt w u))"



section \<open>Properties\<close>

lemmas model_defs =
  ticksOf_def statusOf_def resultOf_def errorOf_def listenersOf_def
  set_ticks_def set_status_def set_result_def set_error_def set_listeners_def
  unhandled_def rethrown_def logged_def emit_bucket_def progress_bucket_def
  pause_def resume_def checkDone_def feed_def pool_def emit_list_def emit_task_def emit_def
  state_def progress_def execute_catch_def execute_leave_def invoke_def execute_enter_def
  execute_def toPromise_def subscribe_def suspend_def list_settle_def runTasks_loop_def
  after_task_def after_immediate_def runTasks_def list_execute_def list_run_def
  pool_listeners_def bucket_settle_def after_all_def bucket_execute_def bucket_run_def
  blank_def put_task_def put_list_def put_bucket_def new_Task_def new_TaskList_def
  new_TaskBucket_def addTask_queue_def addTask_def allowTaskAddition_def cantAdd_def
  two_steps_def three_in_two_def first_list_executing_def throws_error_def throws_string_def
  queue_list_def Let_def

subsection \<open>The guard of the mutators\<close>

lemma addTask_queue_eq:
  "addTask_queue u q =
     (if status q = Done \<or> status q = Err
      then Inr (q\<lparr>tasks := tasks q @ [u], totalTicks := totalTicks q + 1\<rparr>)
      else Inl cantAdd)"
  by (simp add: addTask_queue_def addTask_def allowTaskAddition_def)

lemma prependTask_queue_eq:
  "prependTask_queue u q =
     (if status q = Done \<or> status q = Err
      then Inr (q\<lparr>tasks := take (taskIndex q) (tasks q) @ u # drop (taskIndex q) (tasks q),
                  totalTicks := totalTicks q + 1\<rparr>)
      else Inl cantAdd)"
  by (simp add: prependTask_queue_def prependTask_def allowTaskAddition_def)

text \<open>
  C1. A scope that is created, hence not terminal, refuses \<^verbatim>\<open>addTask\<close> and
  \<^verbatim>\<open>prependTask\<close> with the error, list and bucket alike, and a list that is done accepts
  both and counts the new task: the guard \<^verbatim>\<open>if (this.allowTaskAddition()) throw\<close> does the
  opposite of what its message says.
\<close>

theorem C1_mutators_refuse_before_terminal:
  "status (listAt blank 0) = Created
   \<and> addTask_queue 7 (listAt blank 0) = Inl cantAdd
   \<and> prependTask_queue 7 (listAt blank 0) = Inl cantAdd
   \<and> addTask_bucket 7 (theBucket blank) = Inl cantAdd
   \<and> prependTask_bucket 7 (theBucket blank) = Inl cantAdd
   \<and> map_sum id tasks (addTask_queue 7 ((listAt blank 0)\<lparr>status := Done\<rparr>)) = Inr [7]
   \<and> map_sum id totalTicks (prependTask_queue 7 ((listAt blank 0)\<lparr>status := Done\<rparr>)) = Inr 1"
  by (simp add: addTask_queue_eq prependTask_queue_eq addTask_bucket_def prependTask_bucket_def
      addTask_def prependTask_def allowTaskAddition_bucket_def allowTaskAddition_def
      blank_def new_TaskList_def new_TaskBucket_def)

text \<open>
  The listener for \<^verbatim>\<open>'empty'\<close> on a list that is not terminal, while the bucket still has
  tasks to hand out: the index moves on, the list gets nothing and the error is thrown.
\<close>

lemma feed_raises:
  assumes "taskIndex (theBucket w) < length (tasks (theBucket w))"
    and "status (listAt w l) \<noteq> Done" and "status (listAt w l) \<noteq> Err"
  shows "feed l w =
           (Some cantAdd, w\<lparr>theBucket := (theBucket w)\<lparr>taskIndex := taskIndex (theBucket w) + 1\<rparr>\<rparr>)"
  using assms by (simp add: feed_def Let_def addTask_queue_eq)

text \<open>
  At the end of the queue of the bucket the listener only calls \<^verbatim>\<open>checkDone\<close>, which
  resumes the lists of the bucket when the flag \<^verbatim>\<open>empty\<close> of each of them is set.
\<close>

lemma feed_at_end:
  assumes "length (tasks (theBucket w)) \<le> taskIndex (theBucket w)"
  shows "feed l w =
           (None, if list_all (\<lambda>l. empty (listAt w l)) (taskLists (theBucket w))
                  then fold resume (taskLists (theBucket w)) w else w)"
  using assms by (simp add: feed_def Let_def checkDone_def)

text \<open>
  A list emits \<^verbatim>\<open>'empty'\<close> before it sets its flag \<^verbatim>\<open>empty\<close>, which the loop body had
  cleared; while a list of the bucket has the flag cleared, \<^verbatim>\<open>checkDone\<close> resumes nothing.
\<close>

lemma checkDone_flag_cleared:
  assumes "l \<in> set (taskLists (theBucket w))" and "\<not> empty (listAt w l)"
  shows "checkDone w = w"
  using assms by (auto simp: checkDone_def list_all_iff)

subsection \<open>Runs on the stores above\<close>

text \<open>
  C2. A paused list with an empty queue is executed: the loop of \<^verbatim>\<open>runTasks\<close> is not
  entered, so the promise of \<^verbatim>\<open>execute\<close> fulfils with \<^verbatim>\<open>false\<close> before any step, the list
  emits \<^verbatim>\<open>'execute'\<close> and \<^verbatim>\<open>'done'\<close> but never \<^verbatim>\<open>'empty'\<close>, and its flag \<^verbatim>\<open>empty\<close> stays
  false, although \<^verbatim>\<open>wait\<close> is set.
\<close>

theorem C2_empty_start_returns_at_once:
  "(\<lambda>w. (wait (listAt w 0), tasks (listAt w 0))) (pause 0 blank) = (True, [])
   \<and> (\<lambda>w. (frame (listAt w 0), empty (listAt w 0), wait (listAt w 0), map event (trace w)))
        (list_execute 0 Null (pause 0 blank))
      = (Settled (Inr (Bool False)), False, True, [''execute'', ''done''])"
  by (simp add: model_defs)

text \<open>
  C3. The bucket of the test has its two lists and has handed out nothing yet; its first
  list, which is executing, emits \<^verbatim>\<open>'empty'\<close>. The listener of the bucket takes the first
  task, \<^verbatim>\<open>addTask\<close> of the list throws because the list is not terminal, and \<^verbatim>\<open>emit\<close> passes
  the error on: the index of the bucket is 1 and the queue of the list is still empty.
\<close>

theorem C3_feed_raises_and_skips:
  "(\<lambda>w. (status (listAt w 0), tasks (theBucket w), taskIndex (theBucket w), taskLists (theBucket w)))
        first_list_executing
      = (Execute, [0, 1, 2], 0, [0, 1])
   \<and> (\<lambda>(r, w). (r, taskIndex (theBucket w), tasks (listAt w 0), wait (listAt w 0)))
        (emit (ListRef 0) ''empty'' Undefined (ListRef 0) first_list_executing)
      = (Some cantAdd, 1, [], True)"
  by (simp add: model_defs numeral_2_eq_2)

text \<open>
  C6. The list of the test runs alone to its end: \<^verbatim>\<open>'progress'\<close> of the list fires twice
  and shows the ticks 0 and 1, since \<^verbatim>\<open>this.progress(this.taskIndex++)\<close> passes the index
  as it was before the increment. The list ends with \<^verbatim>\<open>ticks\<close> 1 of \<^verbatim>\<open>totalTicks\<close> 2.
\<close>

theorem C6_progress_counts_from_zero:
  "map_option
     (\<lambda>w. (frame (listAt w 0),
            map shown (filter (\<lambda>e. emitter e = ListRef 0 \<and> event e = ''progress'') (trace w)),
            ticks (listAt w 0), totalTicks (listAt w 0), taskIndex (listAt w 0)))
     (list_run 3 0 Null two_steps)
   = Some (Settled (Inr (Num 2)), [0, 1], 1, 2, 2)"
  by (simp add: model_defs numeral_3_eq_3)



text \<open>
  C8. A task on which nobody listens for \<^verbatim>\<open>'error'\<close> throws an \<^verbatim>\<open>Error\<close>: \<^verbatim>\<open>execute\<close> rejects
  with it and \<^verbatim>\<open>error\<close> holds it, but \<^verbatim>\<open>emit('error', ...)\<close> throws in the \<^verbatim>\<open>catch\<close> block
  before \<^verbatim>\<open>this.status = 'error'\<close>, and the status stays \<^verbatim>\<open>'execute'\<close>. A list with a
  task that throws the string \<^verbatim>\<open>'boom'\<close>: the task fails, and the list, on which nobody
  listens either, stays \<^verbatim>\<open>'execute'\<close> and rejects with an \<^verbatim>\<open>ERR_UNHANDLED_ERROR\<close>, not
  with the string.
\<close>

theorem C8_status_stays_execute_unheard:
  "(\<lambda>(r, w). (r, status (taskAt w 0), error (taskAt w 0), map event (trace w)))
        (execute 0 Null throws_error)
      = (Inl (ErrorObj ''boom''), Execute, ErrorObj ''boom'', [''execute'', ''error''])
   \<and> map_option
        (\<lambda>w. (status (taskAt w 0), error (taskAt w 0), frame (listAt w 0), status (listAt w 0),
               error (listAt w 0)))
        (list_run 1 0 Null throws_string)
      = Some (Err, Str ''boom'', Settled (Inl (Unhandled (Str ''boom''))), Execute, Str ''boom'')"
  by (simp add: model_defs)

text \<open>
  C9, as stated, fails: \<^verbatim>\<open>execute\<close> on a task that is done sets it to \<^verbatim>\<open>'execute'\<close> again, a
  transition that the data model does not allow, and the second run replaces the result;
  \<^verbatim>\<open>progress(3)\<close> after \<^verbatim>\<open>progress(5)\<close> lowers \<^verbatim>\<open>ticks\<close>.
\<close>

theorem C9_done_task_executes_again:
  "status (taskAt (snd (execute 0 (Num 1) blank)) 0) = Done
   \<and> result (taskAt (snd (execute 0 (Num 1) blank)) 0) = Num 1
   \<and> status (taskAt (snd (execute_enter 0 (Num 2) (snd (execute 0 (Num 1) blank)))) 0) = Execute
   \<and> \<not> allowed Done Execute
   \<and> result (taskAt (snd (execute 0 (Num 2) (snd (execute 0 (Num 1) blank)))) 0) = Num 2
   \<and> ticks (taskAt (snd (progress (TaskRef 0) 5 blank)) 0) = 5
   \<and> ticks (taskAt (snd (progress (TaskRef 0) 3 (snd (progress (TaskRef 0) 5 blank)))) 0) = 3"
  by (simp add: model_defs)

subsection \<open>What an emission can change\<close>

lemma same_refl [simp]: "same_objects w w"
  by (simp add: same_objects_def)

lemma same_trans:
  assumes a: "same_objects w w1" and b: "same_objects w1 w2"
  shows "same_objects w w2"
proof -
  have sub: "set (listeners (listAt w2 l)) \<subseteq> set (listeners (listAt w l))" for l
  proof -
    have "set (listeners (listAt w2 l)) \<subseteq> set (listeners (listAt w1 l))"
      using b by (simp add: same_objects_def)
    moreover have "set (listeners (listAt w1 l)) \<subseteq> set (listeners (listAt w l))"
      using a by (simp add: same_objects_def)
    ultimately show ?thesis by (rule subset_trans)
  qed
  have rest: "(\<forall>u. (taskAt w2 u)\<lparr>listeners := []\<rparr> = (taskAt w u)\<lparr>listeners := []\<rparr>)
     \<and> (\<forall>l. (listAt w2 l)\<lparr>listeners := []\<rparr> = (listAt w l)\<lparr>listeners := []\<rparr>)
     \<and> (theBucket w2)\<lparr>listeners := [], ticks := 0\<rparr> = (theBucket w)\<lparr>listeners := [], ticks := 0\<rparr>
     \<and> calls w2 = calls w \<and> objAt w2 = objAt w \<and> nextObj w2 = nextObj w \<and> nextList w2 = nextList w"
    using a b by (simp add: same_objects_def)
  show ?thesis
    unfolding same_objects_def using rest sub by blast
qed

lemma emit_bucket_same: "same_objects w (snd (emit_bucket name e c w))"
  by (simp add: emit_bucket_def logged_def set_listeners_def same_objects_def Let_def)

lemma emit_bucket_fst:
  "fst (emit_bucket name e c w) =
     (if unhandled (listeners (theBucket w)) name then Some (rethrown e) else None)"
  by (simp add: emit_bucket_def logged_def Let_def)

lemma progress_bucket_same: "same_objects w (snd (progress_bucket t w))"
proof -
  have "same_objects w (set_ticks BucketRef t w)"
    by (simp add: set_ticks_def same_objects_def)
  then show ?thesis
    unfolding progress_bucket_def by (rule same_trans) (rule emit_bucket_same)
qed

lemma progress_bucket_fst: "fst (progress_bucket t w) = None"
  by (simp add: progress_bucket_def emit_bucket_fst unhandled_def)

lemma pool_same:
  assumes "name \<noteq> ''empty''"
  shows "same_objects w (snd (pool name e c w))"
proof -
  obtain t w1 where eb: "emit_bucket ''child/done'' Undefined c w = (t, w1)"
    by fastforce
  have s1: "same_objects w w1"
    using emit_bucket_same[of w "''child/done''" Undefined c] eb by simp
  have s2: "same_objects w (snd (progress_bucket k w1))" for k
    using same_trans[OF s1 progress_bucket_same] .
  show ?thesis
    using assms unfolding pool_def
    by (cases t) (simp_all add: eb emit_bucket_same s1 s2)
qed

lemma pool_fst:
  assumes "name \<noteq> ''empty''"
  shows "fst (pool name e c w) = None"
proof -
  have eb: "fst (emit_bucket n e' c w) = None" if "n \<noteq> ''error''" for n e'
    using that by (simp add: emit_bucket_fst unhandled_def)
  obtain t w1 where p: "emit_bucket ''child/done'' Undefined c w = (t, w1)"
    by fastforce
  have "t = None"
    using eb[of "''child/done''" Undefined] p by simp
  then show ?thesis
    using assms unfolding pool_def by (simp add: eb p progress_bucket_fst)
qed

lemma notify_list_same:
  "name \<noteq> ''empty'' \<or> (''empty'', Pool) \<notin> set ls \<Longrightarrow> same_objects w (snd (notify_list ls name e c w))"
proof (induction ls arbitrary: w)
  case Nil
  then show ?case by simp
next
  case (Cons a ls)
  obtain n k where a: "a = (n, k)" by (cases a)
  show ?case
  proof (cases "n = name \<and> k = Pool")
    case True
    with Cons.prems a have ne: "name \<noteq> ''empty''" by auto
    obtain t w1 where p: "pool name e c w = (t, w1)" by fastforce
    have s1: "same_objects w w1" using pool_same[OF ne, of w e c] p by simp
    have s2: "same_objects w1 (snd (notify_list ls name e c w1))"
      using Cons.IH[of w1] ne by simp
    show ?thesis
      using True a p s1 same_trans[OF s1 s2] by (cases t) simp_all
  next
    case False
    then show ?thesis using Cons a by auto
  qed
qed

lemma notify_list_fst:
  "name \<noteq> ''empty'' \<or> (''empty'', Pool) \<notin> set ls \<Longrightarrow> fst (notify_list ls name e c w) = None"
proof (induction ls arbitrary: w)
  case Nil
  then show ?case by simp
next
  case (Cons a ls)
  obtain n k where a: "a = (n, k)" by (cases a)
  show ?case
  proof (cases "n = name \<and> k = Pool")
    case True
    with Cons.prems a have ne: "name \<noteq> ''empty''" by auto
    obtain t w1 where p: "pool name e c w = (t, w1)" by fastforce
    have t: "t = None" using pool_fst[OF ne, of e c w] p by simp
    show ?thesis
      using True a p t Cons.IH[of w1] ne by simp
  next
    case False
    then show ?thesis using Cons a by auto
  qed
qed


lemma emit_list_same:
  assumes "name \<noteq> ''empty'' \<or> (''empty'', Pool) \<notin> set (listeners (listAt w l))"
  shows "same_objects w (snd (emit_list l name e c w))"
proof -
  let ?w1 = "logged (ListRef l) name e c w"
  let ?ls = "listeners (listAt w l)"
  let ?w2 = "set_listeners (ListRef l) (filter (stays name) ?ls) ?w1"
  have s1: "same_objects w ?w1"
    by (simp add: logged_def same_objects_def)
  have s2: "same_objects w ?w2"
    by (simp add: logged_def set_listeners_def same_objects_def)
  have s3: "same_objects ?w2 (snd (notify_list ?ls name e c ?w2))"
    using assms by (rule notify_list_same)
  have ls: "listeners (listAt ?w1 l) = ?ls"
    by (simp add: logged_def)
  show ?thesis
    unfolding emit_list_def Let_def ls
    using s1 same_trans[OF s2 s3] by simp
qed

lemma emit_list_fst:
  assumes "name \<noteq> ''empty'' \<or> (''empty'', Pool) \<notin> set (listeners (listAt w l))"
  shows "fst (emit_list l name e c w) =
           (if unhandled (listeners (listAt w l)) name then Some (rethrown e) else None)"
proof -
  have ls: "listeners (listAt (logged (ListRef l) name e c w) l) = listeners (listAt w l)"
    by (simp add: logged_def)
  show ?thesis
    unfolding emit_list_def Let_def ls
    using notify_list_fst[OF assms] by simp
qed

lemma child_name_not_empty [simp]: "''child/'' @ name \<noteq> ''empty''"
  by simp

lemma child_name_not_error [simp]: "''child/'' @ name \<noteq> ''error''"
  by simp

lemma notify_task_same: "same_objects w (snd (notify_task ls name e c w))"
proof (induction ls arbitrary: w)
  case Nil
  then show ?case by simp
next
  case (Cons a ls)
  obtain n k where a: "a = (n, k)" by (cases a)
  show ?case
  proof (cases "if n = name then k else On")
    case (Bubble l)
    obtain t w1 where p: "emit_list l (''child/'' @ name) e c w = (t, w1)" by fastforce
    have s1: "same_objects w w1"
      using emit_list_same[of "''child/'' @ name" w l e c] p by simp
    have s2: "same_objects w1 (snd (notify_task ls name e c w1))"
      using Cons.IH[of w1] .
    show ?thesis
      using Bubble a p s1 same_trans[OF s1 s2] by (cases t) simp_all
  qed (use Cons a in simp_all)
qed

lemma notify_task_fst: "fst (notify_task ls name e c w) = None"
proof (induction ls arbitrary: w)
  case Nil
  then show ?case by simp
next
  case (Cons a ls)
  obtain n k where a: "a = (n, k)" by (cases a)
  show ?case
  proof (cases "if n = name then k else On")
    case (Bubble l)
    obtain t w1 where p: "emit_list l (''child/'' @ name) e c w = (t, w1)" by fastforce
    have "t = None"
      using emit_list_fst[of "''child/'' @ name" w l e c] p by (simp add: unhandled_def)
    then show ?thesis
      using Bubble a p Cons.IH[of w1] by simp
  qed (use Cons a in simp_all)
qed

lemma emit_task_same: "same_objects w (snd (emit_task u name e c w))"
proof -
  let ?w1 = "logged (TaskRef u) name e c w"
  let ?ls = "listeners (taskAt w u)"
  let ?w2 = "set_listeners (TaskRef u) (filter (stays name) ?ls) ?w1"
  have s1: "same_objects w ?w1"
    by (simp add: logged_def same_objects_def)
  have s2: "same_objects w ?w2"
    by (simp add: logged_def set_listeners_def same_objects_def)
  have ls: "listeners (taskAt ?w1 u) = ?ls"
    by (simp add: logged_def)
  show ?thesis
    unfolding emit_task_def Let_def ls
    using s1 same_trans[OF s2 notify_task_same] by simp
qed

lemma emit_task_fst:
  "fst (emit_task u name e c w) =
     (if unhandled (listeners (taskAt w u)) name then Some (rethrown e) else None)"
proof -
  have ls: "listeners (taskAt (logged (TaskRef u) name e c w) u) = listeners (taskAt w u)"
    by (simp add: logged_def)
  show ?thesis
    unfolding emit_task_def Let_def ls by (simp add: notify_task_fst)
qed

lemma same_task_fields:
  assumes "same_objects w w'"
  shows "action (taskAt w' u) = action (taskAt w u)"
    and "status (taskAt w' u) = status (taskAt w u)"
    and "result (taskAt w' u) = result (taskAt w u)"
    and "error (taskAt w' u) = error (taskAt w u)"
    and "ticks (taskAt w' u) = ticks (taskAt w u)"
proof -
  have t: "(taskAt w' u)\<lparr>listeners := []\<rparr> = (taskAt w u)\<lparr>listeners := []\<rparr>"
    using assms by (simp add: same_objects_def)
  show "action (taskAt w' u) = action (taskAt w u)"
    using arg_cong[OF t, of action] by simp
  show "status (taskAt w' u) = status (taskAt w u)"
    using arg_cong[OF t, of status] by simp
  show "result (taskAt w' u) = result (taskAt w u)"
    using arg_cong[OF t, of result] by simp
  show "error (taskAt w' u) = error (taskAt w u)"
    using arg_cong[OF t, of error] by simp
  show "ticks (taskAt w' u) = ticks (taskAt w u)"
    using arg_cong[OF t, of ticks] by simp
qed

lemma same_kept: "same_objects w w' \<Longrightarrow> lists_kept w w'"
  using same_task_fields(1)[of w w'] by (simp add: same_objects_def lists_kept_def)

lemma kept_refl [simp]: "lists_kept w w"
  by (simp add: lists_kept_def)

lemma kept_trans:
  assumes a: "lists_kept w w1" and b: "lists_kept w1 w2"
  shows "lists_kept w w2"
proof -
  have sub: "set (listeners (listAt w2 l)) \<subseteq> set (listeners (listAt w l))" for l
  proof -
    have "set (listeners (listAt w2 l)) \<subseteq> set (listeners (listAt w1 l))"
      using b by (simp add: lists_kept_def)
    moreover have "set (listeners (listAt w1 l)) \<subseteq> set (listeners (listAt w l))"
      using a by (simp add: lists_kept_def)
    ultimately show ?thesis by (rule subset_trans)
  qed
  have rest: "(\<forall>l. (listAt w2 l)\<lparr>listeners := []\<rparr> = (listAt w l)\<lparr>listeners := []\<rparr>)
     \<and> (\<forall>u. action (taskAt w2 u) = action (taskAt w u))
     \<and> (theBucket w2)\<lparr>listeners := [], ticks := 0\<rparr> = (theBucket w)\<lparr>listeners := [], ticks := 0\<rparr>
     \<and> objAt w2 = objAt w \<and> nextObj w2 = nextObj w \<and> nextList w2 = nextList w"
    using a b by (simp add: lists_kept_def)
  show ?thesis
    unfolding lists_kept_def using rest sub by blast
qed

lemma kept_list_fields:
  assumes "lists_kept w w'"
  shows "tasks (listAt w' l) = tasks (listAt w l)"
    and "taskIndex (listAt w' l) = taskIndex (listAt w l)"
    and "wait (listAt w' l) = wait (listAt w l)"
    and "empty (listAt w' l) = empty (listAt w l)"
    and "isQueue (listAt w' l) = isQueue (listAt w l)"
    and "controller (listAt w' l) = controller (listAt w l)"
    and "frame (listAt w' l) = frame (listAt w l)"
    and "status (listAt w' l) = status (listAt w l)"
    and "result (listAt w' l) = result (listAt w l)"
    and "set (listeners (listAt w' l)) \<subseteq> set (listeners (listAt w l))"
    and "action (taskAt w' u) = action (taskAt w u)"
    and "ticks (listAt w' l) = ticks (listAt w l)"
proof -
  have t: "(listAt w' l)\<lparr>listeners := []\<rparr> = (listAt w l)\<lparr>listeners := []\<rparr>"
    using assms by (simp add: lists_kept_def)
  show "tasks (listAt w' l) = tasks (listAt w l)"
    using arg_cong[OF t, of tasks] by simp
  show "taskIndex (listAt w' l) = taskIndex (listAt w l)"
    using arg_cong[OF t, of taskIndex] by simp
  show "wait (listAt w' l) = wait (listAt w l)"
    using arg_cong[OF t, of wait] by simp
  show "empty (listAt w' l) = empty (listAt w l)"
    using arg_cong[OF t, of empty] by simp
  show "isQueue (listAt w' l) = isQueue (listAt w l)"
    using arg_cong[OF t, of isQueue] by simp
  show "controller (listAt w' l) = controller (listAt w l)"
    using arg_cong[OF t, of controller] by simp
  show "frame (listAt w' l) = frame (listAt w l)"
    using arg_cong[OF t, of frame] by simp
  show "status (listAt w' l) = status (listAt w l)"
    using arg_cong[OF t, of status] by simp
  show "result (listAt w' l) = result (listAt w l)"
    using arg_cong[OF t, of result] by simp
  show "set (listeners (listAt w' l)) \<subseteq> set (listeners (listAt w l))"
    using assms by (simp add: lists_kept_def)
  show "action (taskAt w' u) = action (taskAt w u)"
    using assms by (simp add: lists_kept_def)
  show "ticks (listAt w' l) = ticks (listAt w l)"
    using arg_cong[OF t, of ticks] by simp
qed

lemma state_task:
  "fst (state (TaskRef u) s w) = (if s = Err \<and> ''error'' \<notin> set (map fst (listeners (taskAt w u))) then Some (rethrown Undefined) else None)"
  "same_objects (set_status (TaskRef u) s w) (snd (state (TaskRef u) s w))"
  by (cases s; simp add: state_def emit_def emit_task_fst emit_task_same unhandled_def set_status_def)+

lemma execute_enter_spec:
  "fst (execute_enter u x w) = behaviour (action (taskAt w u)) x"
  "lists_kept w (snd (execute_enter u x w))"
  "calls (snd (execute_enter u x w)) = calls w @ [(u, x)]"
proof -
  obtain t w1 where s: "state (TaskRef u) Execute w = (t, w1)" by fastforce
  have t: "t = None" using state_task(1)[of u Execute w] s by simp
  have so: "same_objects (set_status (TaskRef u) Execute w) w1"
    using state_task(2)[of u Execute w] s by simp
  have k0: "lists_kept w (set_status (TaskRef u) Execute w)"
    by (simp add: lists_kept_def set_status_def)
  have k1: "lists_kept w w1" using kept_trans[OF k0 same_kept[OF so]] .
  have a: "action (taskAt w1 u) = action (taskAt w u)"
    using kept_list_fields(11)[OF k1] .
  have c: "calls w1 = calls w"
    using so by (simp add: same_objects_def set_status_def)
  have k2: "lists_kept w1 (w1\<lparr>calls := calls w1 @ [(u, x)]\<rparr>)"
    by (simp add: lists_kept_def)
  show "fst (execute_enter u x w) = behaviour (action (taskAt w u)) x"
    by (simp add: execute_enter_def s t invoke_def a)
  show "lists_kept w (snd (execute_enter u x w))"
    using kept_trans[OF k1 k2] by (simp add: execute_enter_def s t invoke_def)
  show "calls (snd (execute_enter u x w)) = calls w @ [(u, x)]"
    by (simp add: execute_enter_def s t invoke_def c)
qed

lemma execute_catch_task:
  "lists_kept w (snd (execute_catch (TaskRef u) e w))"
  "calls (snd (execute_catch (TaskRef u) e w)) = calls w"
  "\<exists>x. fst (execute_catch (TaskRef u) e w) = Inl x"
proof -
  let ?w0 = "set_error (TaskRef u) e w"
  obtain t w1 where s: "emit (TaskRef u) ''error'' e (TaskRef u) ?w0 = (t, w1)" by fastforce
  have so: "same_objects ?w0 w1"
    using emit_task_same[of ?w0 u "''error''" e "TaskRef u"] s by (simp add: emit_def)
  have k0: "lists_kept w ?w0"
    by (simp add: lists_kept_def set_error_def)
  have k1: "lists_kept w w1" using kept_trans[OF k0 same_kept[OF so]] .
  have k2: "lists_kept w1 (set_status (TaskRef u) Err w1)"
    by (simp add: lists_kept_def set_status_def)
  have c: "calls w1 = calls w"
    using so by (simp add: same_objects_def set_error_def)
  show "lists_kept w (snd (execute_catch (TaskRef u) e w))"
    using k1 kept_trans[OF k1 k2] by (cases t) (simp_all add: execute_catch_def s)
  show "calls (snd (execute_catch (TaskRef u) e w)) = calls w"
    using c by (cases t) (simp_all add: execute_catch_def s set_status_def)
  show "\<exists>x. fst (execute_catch (TaskRef u) e w) = Inl x"
    by (cases t) (simp_all add: execute_catch_def s)
qed

lemma execute_leave_task:
  "lists_kept w (snd (execute_leave (TaskRef u) out w))"
  "calls (snd (execute_leave (TaskRef u) out w)) = calls w"
  "out = Inr v \<Longrightarrow> fst (execute_leave (TaskRef u) out w) = Inr v"
  "out = Inr v \<Longrightarrow> status (taskAt (snd (execute_leave (TaskRef u) out w)) u) = Done"
  "out = Inr v \<Longrightarrow> result (taskAt (snd (execute_leave (TaskRef u) out w)) u) = v"
  "out = Inl e \<Longrightarrow> \<exists>x. fst (execute_leave (TaskRef u) out w) = Inl x"
proof -
  have main: "lists_kept w (snd (execute_leave (TaskRef u) out w))
    \<and> calls (snd (execute_leave (TaskRef u) out w)) = calls w
    \<and> (\<forall>v. out = Inr v \<longrightarrow> fst (execute_leave (TaskRef u) out w) = Inr v
          \<and> status (taskAt (snd (execute_leave (TaskRef u) out w)) u) = Done
          \<and> result (taskAt (snd (execute_leave (TaskRef u) out w)) u) = v)
    \<and> (\<forall>e. out = Inl e \<longrightarrow> (\<exists>x. fst (execute_leave (TaskRef u) out w) = Inl x))"
  proof (cases out)
    case (Inl e)
    then show ?thesis
      using execute_catch_task[where w=w and u=u and e=e] by (simp add: execute_leave_def)
  next
    case (Inr v)
    let ?w0 = "set_result (TaskRef u) v w"
    let ?w0' = "set_status (TaskRef u) Done ?w0"
    obtain t w1 where s: "state (TaskRef u) Done ?w0 = (t, w1)" by fastforce
    have t: "t = None" using state_task(1)[of u Done ?w0] s by simp
    have so: "same_objects ?w0' w1"
      using state_task(2)[of u Done ?w0] s by simp
    have k0: "lists_kept w ?w0'"
      by (simp add: lists_kept_def set_result_def set_status_def)
    have k1: "lists_kept w w1" using kept_trans[OF k0 same_kept[OF so]] .
    have c: "calls w1 = calls w"
      using so by (simp add: same_objects_def set_result_def set_status_def)
    have r: "result (taskAt w1 u) = v" "status (taskAt w1 u) = Done"
      using same_task_fields(2,3)[OF so, of u] by (simp_all add: set_result_def set_status_def)
    show ?thesis
      using Inr k1 c r by (simp add: execute_leave_def s t resultOf_def)
  qed
  show "lists_kept w (snd (execute_leave (TaskRef u) out w))"
    "calls (snd (execute_leave (TaskRef u) out w)) = calls w"
    "out = Inr v \<Longrightarrow> fst (execute_leave (TaskRef u) out w) = Inr v"
    "out = Inr v \<Longrightarrow> status (taskAt (snd (execute_leave (TaskRef u) out w)) u) = Done"
    "out = Inr v \<Longrightarrow> result (taskAt (snd (execute_leave (TaskRef u) out w)) u) = v"
    "out = Inl e \<Longrightarrow> \<exists>x. fst (execute_leave (TaskRef u) out w) = Inl x"
    using main by blast+
qed

lemma runs_alone_kept:
  assumes "runs_alone l us q ctrl acts w" and "lists_kept w w'"
  shows "runs_alone l us q ctrl acts w'"
  using assms(1) kept_list_fields(1-10)[OF assms(2), of l] kept_list_fields(11)[OF assms(2)]
  unfolding runs_alone_def by auto

lemma runs_alone_list_upd:
  assumes "runs_alone l us q ctrl acts w"
    and "tasks t = us" "isQueue t = q" "controller t = ctrl" "\<not> wait t"
    and "set (listeners t) \<subseteq> set (listeners (listAt w l))"
  shows "runs_alone l us q ctrl acts (w\<lparr>listAt := (listAt w)(l := t)\<rparr>)"
  using assms unfolding runs_alone_def by auto

text \<open>The list's own emissions, when the bucket does not feed it.\<close>

lemma emit_own:
  assumes "(''empty'', Pool) \<notin> set (listeners (listAt w l))"
  shows "same_objects w (snd (emit (ListRef l) name e c w))"
    and "name \<noteq> ''error'' \<Longrightarrow> fst (emit (ListRef l) name e c w) = None"
  using assms emit_list_same[of name w l e c] emit_list_fst[of name w l e c]
  by (simp_all add: emit_def unhandled_def)

lemma list_settle_fulfilled:
  assumes ra: "runs_alone l us q ctrl acts w"
  shows "frame (listAt (list_settle l (Inr v) w) l) = Settled (Inr v)"
    and "result (listAt (list_settle l (Inr v) w) l) = v"
    and "status (listAt (list_settle l (Inr v) w) l) = Done"
    and "calls (list_settle l (Inr v) w) = calls w"
    and "ticks (listAt (list_settle l (Inr v) w) l) = ticks (listAt w l)"
proof -
  let ?w0 = "set_status (ListRef l) Done (set_result (ListRef l) v w)"
  have np: "(''empty'', Pool) \<notin> set (listeners (listAt ?w0 l))"
    using ra by (simp add: runs_alone_def set_status_def set_result_def)
  obtain t w1 where s: "emit (ListRef l) ''done'' Undefined (ListRef l) ?w0 = (t, w1)" by fastforce
  have t: "t = None"
    using emit_own(2)[OF np, where name="''done''" and e=Undefined and c="ListRef l"] s by simp
  have so: "same_objects ?w0 w1"
    using emit_own(1)[OF np, where name="''done''" and e=Undefined and c="ListRef l"] s by simp
  have f: "result (listAt w1 l) = v" "status (listAt w1 l) = Done"
    "ticks (listAt w1 l) = ticks (listAt w l)"
    using kept_list_fields(8,9,12)[OF same_kept[OF so], of l]
    by (simp_all add: set_status_def set_result_def)
  have c: "calls w1 = calls w"
    using so by (simp add: same_objects_def set_status_def set_result_def)
  have el: "execute_leave (ListRef l) (Inr v) w = (Inr v, w1)"
    using f by (simp add: execute_leave_def state_def s t resultOf_def)
  show "frame (listAt (list_settle l (Inr v) w) l) = Settled (Inr v)"
    and "result (listAt (list_settle l (Inr v) w) l) = v"
    and "status (listAt (list_settle l (Inr v) w) l) = Done"
    and "calls (list_settle l (Inr v) w) = calls w"
    and "ticks (listAt (list_settle l (Inr v) w) l) = ticks (listAt w l)"
    using f c by (simp_all add: list_settle_def el suspend_def)
qed

subsection \<open>The operations on a single task\<close>

lemma task_emit_fields:
  "status (taskAt (snd (emit (TaskRef u) name e c w)) v) = status (taskAt w v)"
  "result (taskAt (snd (emit (TaskRef u) name e c w)) v) = result (taskAt w v)"
  "error (taskAt (snd (emit (TaskRef u) name e c w)) v) = error (taskAt w v)"
  "ticks (taskAt (snd (emit (TaskRef u) name e c w)) v) = ticks (taskAt w v)"
  using same_task_fields(2-5)[OF emit_task_same, of u name e c w v]
  by (simp_all add: emit_def)

lemma execute_enter_fields:
  "status (taskAt (snd (execute_enter u x w)) u) = Execute"
  "result (taskAt (snd (execute_enter u x w)) u) = result (taskAt w u)"
  "error (taskAt (snd (execute_enter u x w)) u) = error (taskAt w u)"
proof -
  obtain t w1 where s: "state (TaskRef u) Execute w = (t, w1)" by fastforce
  have t: "t = None" using state_task(1)[of u Execute w] s by simp
  have f: "status (taskAt w1 u) = Execute" "result (taskAt w1 u) = result (taskAt w u)"
    "error (taskAt w1 u) = error (taskAt w u)"
    using task_emit_fields(1-3)[of u "''execute''" Undefined "TaskRef u" "set_status (TaskRef u) Execute w" u] s
    by (simp_all add: state_def set_status_def)
  show "status (taskAt (snd (execute_enter u x w)) u) = Execute"
    "result (taskAt (snd (execute_enter u x w)) u) = result (taskAt w u)"
    "error (taskAt (snd (execute_enter u x w)) u) = error (taskAt w u)"
    using f by (simp_all add: execute_enter_def s t invoke_def)
qed

lemma execute_leave_fulfilled_fields:
  "fst (execute_leave (TaskRef u) (Inr v) w) = Inr v"
  "status (taskAt (snd (execute_leave (TaskRef u) (Inr v) w)) u) = Done"
  "result (taskAt (snd (execute_leave (TaskRef u) (Inr v) w)) u) = v"
  "error (taskAt (snd (execute_leave (TaskRef u) (Inr v) w)) u) = error (taskAt w u)"
proof -
  let ?w0 = "set_result (TaskRef u) v w"
  obtain t w1 where s: "state (TaskRef u) Done ?w0 = (t, w1)" by fastforce
  have t: "t = None" using state_task(1)[of u Done ?w0] s by simp
  have f: "status (taskAt w1 u) = Done" "result (taskAt w1 u) = v"
    "error (taskAt w1 u) = error (taskAt w u)"
    using task_emit_fields(1-3)[of u "''done''" Undefined "TaskRef u" "set_status (TaskRef u) Done ?w0" u] s
    by (simp_all add: state_def set_status_def set_result_def)
  show "fst (execute_leave (TaskRef u) (Inr v) w) = Inr v"
    "status (taskAt (snd (execute_leave (TaskRef u) (Inr v) w)) u) = Done"
    "result (taskAt (snd (execute_leave (TaskRef u) (Inr v) w)) u) = v"
    "error (taskAt (snd (execute_leave (TaskRef u) (Inr v) w)) u) = error (taskAt w u)"
    using f by (simp_all add: execute_leave_def s t resultOf_def)
qed

lemma execute_leave_rejected_fields:
  assumes "''error'' \<in> set (map fst (listeners (taskAt w u)))"
  shows "fst (execute_leave (TaskRef u) (Inl e) w) = Inl e"
    and "status (taskAt (snd (execute_leave (TaskRef u) (Inl e) w)) u) = Err"
    and "error (taskAt (snd (execute_leave (TaskRef u) (Inl e) w)) u) = e"
    and "result (taskAt (snd (execute_leave (TaskRef u) (Inl e) w)) u) = result (taskAt w u)"
proof -
  let ?w0 = "set_error (TaskRef u) e w"
  obtain t w1 where s: "emit (TaskRef u) ''error'' e (TaskRef u) ?w0 = (t, w1)" by fastforce
  have t: "t = None"
    using emit_task_fst[of u "''error''" e "TaskRef u" ?w0] s assms
    by (simp add: emit_def unhandled_def set_error_def)
  have f: "error (taskAt w1 u) = e" "result (taskAt w1 u) = result (taskAt w u)"
    using task_emit_fields(2,3)[of u "''error''" e "TaskRef u" ?w0 u] s
    by (simp_all add: set_error_def)
  show "fst (execute_leave (TaskRef u) (Inl e) w) = Inl e"
    and "status (taskAt (snd (execute_leave (TaskRef u) (Inl e) w)) u) = Err"
    and "error (taskAt (snd (execute_leave (TaskRef u) (Inl e) w)) u) = e"
    and "result (taskAt (snd (execute_leave (TaskRef u) (Inl e) w)) u) = result (taskAt w u)"
    using f by (simp_all add: execute_leave_def execute_catch_def s t set_status_def)
qed

text \<open>
  A task that fails while nobody listens for \<^verbatim>\<open>'error'\<close> on it: the error is stored, the
  status is left as it was, and the promise rejects with what \<^verbatim>\<open>emit\<close> threw.
\<close>

lemma execute_leave_unheard:
  assumes "''error'' \<notin> set (map fst (listeners (taskAt w u)))"
  shows "fst (execute_leave (TaskRef u) (Inl e) w) = Inl (rethrown e)"
    and "status (taskAt (snd (execute_leave (TaskRef u) (Inl e) w)) u) = status (taskAt w u)"
    and "error (taskAt (snd (execute_leave (TaskRef u) (Inl e) w)) u) = e"
proof -
  let ?w0 = "set_error (TaskRef u) e w"
  obtain t w1 where s: "emit (TaskRef u) ''error'' e (TaskRef u) ?w0 = (t, w1)" by fastforce
  have t: "t = Some (rethrown e)"
    using emit_task_fst[of u "''error''" e "TaskRef u" ?w0] s assms
    by (simp add: emit_def unhandled_def set_error_def)
  have f: "error (taskAt w1 u) = e" "status (taskAt w1 u) = status (taskAt w u)"
    using task_emit_fields(1,3)[of u "''error''" e "TaskRef u" ?w0 u] s
    by (simp_all add: set_error_def)
  show "fst (execute_leave (TaskRef u) (Inl e) w) = Inl (rethrown e)"
    and "status (taskAt (snd (execute_leave (TaskRef u) (Inl e) w)) u) = status (taskAt w u)"
    and "error (taskAt (snd (execute_leave (TaskRef u) (Inl e) w)) u) = e"
    using f by (simp_all add: execute_leave_def execute_catch_def s t)
qed

lemma progress_fields:
  "ticks (taskAt (snd (progress (TaskRef u) t w)) u) = t"
  "status (taskAt (snd (progress (TaskRef u) t w)) u) = status (taskAt w u)"
  "result (taskAt (snd (progress (TaskRef u) t w)) u) = result (taskAt w u)"
  "error (taskAt (snd (progress (TaskRef u) t w)) u) = error (taskAt w u)"
  using task_emit_fields[of u "''progress''" Undefined "TaskRef u" "set_ticks (TaskRef u) t w" u]
  by (simp_all add: progress_def set_ticks_def)

text \<open>
  C9, amended. What each operation does to a task \<open>u\<close>, in any store and whatever the
  status is. The call of \<^verbatim>\<open>execute\<close> sets the status to \<^verbatim>\<open>'execute'\<close> and leaves result and
  error. When the action has fulfilled with \<open>v\<close>, the status is \<^verbatim>\<open>'done'\<close> and the result
  \<open>v\<close>; when it has failed with \<open>e\<close> and somebody listens for \<^verbatim>\<open>'error'\<close>, the status is
  \<^verbatim>\<open>'error'\<close> and the error \<open>e\<close>. \<^verbatim>\<open>progress(t)\<close> sets \<^verbatim>\<open>ticks\<close> to \<open>t\<close> and leaves status,
  result and error; \<^verbatim>\<open>toPromise\<close> on a task that is not created changes none of them. So a
  task that is created when it is executed, and executing when its action settles, moves
  along the allowed transitions.
\<close>

theorem C9_what_the_operations_do:
  "status (taskAt (snd (execute_enter u x w)) u) = Execute
   \<and> result (taskAt (snd (execute_enter u x w)) u) = result (taskAt w u)
   \<and> error (taskAt (snd (execute_enter u x w)) u) = error (taskAt w u)
   \<and> status (taskAt (snd (execute_leave (TaskRef u) (Inr v) w)) u) = Done
   \<and> result (taskAt (snd (execute_leave (TaskRef u) (Inr v) w)) u) = v
   \<and> error (taskAt (snd (execute_leave (TaskRef u) (Inr v) w)) u) = error (taskAt w u)
   \<and> (''error'' \<in> set (map fst (listeners (taskAt w u))) \<longrightarrow>
        status (taskAt (snd (execute_leave (TaskRef u) (Inl e) w)) u) = Err
      \<and> error (taskAt (snd (execute_leave (TaskRef u) (Inl e) w)) u) = e
      \<and> result (taskAt (snd (execute_leave (TaskRef u) (Inl e) w)) u) = result (taskAt w u))
   \<and> ticks (taskAt (snd (progress (TaskRef u) t w)) u) = t
   \<and> status (taskAt (snd (progress (TaskRef u) t w)) u) = status (taskAt w u)
   \<and> result (taskAt (snd (progress (TaskRef u) t w)) u) = result (taskAt w u)
   \<and> error (taskAt (snd (progress (TaskRef u) t w)) u) = error (taskAt w u)
   \<and> (status (taskAt w u) \<noteq> Created \<longrightarrow>
        fst (toPromise u w) = None
      \<and> status (taskAt (snd (toPromise u w)) u) = status (taskAt w u)
      \<and> result (taskAt (snd (toPromise u w)) u) = result (taskAt w u)
      \<and> error (taskAt (snd (toPromise u w)) u) = error (taskAt w u)
      \<and> ticks (taskAt (snd (toPromise u w)) u) = ticks (taskAt w u))
   \<and> (status (taskAt w u) = Created \<longrightarrow>
        allowed (status (taskAt w u)) (status (taskAt (snd (execute_enter u x w)) u)))
   \<and> (status (taskAt w u) = Execute \<longrightarrow>
        allowed (status (taskAt w u)) (status (taskAt (snd (execute_leave (TaskRef u) (Inr v) w)) u)))
   \<and> (status (taskAt w u) = Execute \<and> ''error'' \<in> set (map fst (listeners (taskAt w u))) \<longrightarrow>
        allowed (status (taskAt w u)) (status (taskAt (snd (execute_leave (TaskRef u) (Inl e) w)) u)))"
  using execute_leave_rejected_fields[of w u e]
  by (simp add: execute_enter_fields execute_leave_fulfilled_fields progress_fields
      toPromise_def set_listeners_def)

text \<open>A created task, and a task that is executing in a list.\<close>

theorem C9_what_the_operations_do_witness:
  "status (taskAt blank 0) = Created
   \<and> status (taskAt (snd (execute_enter 0 Null blank)) 0) = Execute
   \<and> allowed Created Execute
   \<and> status (taskAt heard 0) = Execute
   \<and> ''error'' \<in> set (map fst (listeners (taskAt heard 0)))
   \<and> status (taskAt (snd (execute_leave (TaskRef 0) (Inl (Str ''boom'')) heard)) 0) = Err
   \<and> error (taskAt (snd (execute_leave (TaskRef 0) (Inl (Str ''boom'')) heard)) 0) = Str ''boom''
   \<and> status (taskAt (snd (execute_leave (TaskRef 0) (Inr (Num 1)) heard)) 0) = Done
   \<and> result (taskAt (snd (execute_leave (TaskRef 0) (Inr (Num 1)) heard)) 0) = Num 1
   \<and> fst (toPromise 0 heard) = None
   \<and> status (taskAt (snd (toPromise 0 heard)) 0) = Execute
   \<and> ticks (taskAt (snd (progress (TaskRef 0) 3 heard)) 0) = 3"
proof -
  have h: "status (taskAt heard 0) = Execute"
    "''error'' \<in> set (map fst (listeners (taskAt heard 0)))"
    by (simp_all add: heard_def model_defs)
  have c: "status (taskAt blank 0) = Created"
    by (simp add: blank_def new_Task_def)
  show ?thesis
    using C9_what_the_operations_do[of 0 Null blank "Num 1" "Str ''boom''" 3]
      C9_what_the_operations_do[of 0 Null heard "Num 1" "Str ''boom''" 3] h c
    by simp
qed

subsection \<open>A list that runs alone\<close>

lemma loop_enter:
  assumes ra: "runs_alone l us q ctrl acts w"
    and k: "taskIndex (listAt w l) = k" "k < length us"
  shows "runs_alone l us q ctrl acts (runTasks_loop l st lst x w)"
    and "taskIndex (listAt (runTasks_loop l st lst x w) l) = k"
    and "frame (listAt (runTasks_loop l st lst x w) l) =
           AwaitTask st lst x (us ! k)
             (behaviour (acts (us ! k)) (if q then x else Context st lst ctrl))"
    and "calls (runTasks_loop l st lst x w) =
           calls w @ [(us ! k, if q then x else Context st lst ctrl)]"
proof -
  let ?arg = "if q then x else Context st lst ctrl"
  let ?u = "us ! k"
  let ?w1 = "w\<lparr>listAt := (listAt w)(l := (listAt w l)\<lparr>empty := False\<rparr>)\<rparr>"
  let ?w2 = "subscribe ?u l ?w1"
  obtain out w3 where ee: "execute_enter ?u ?arg ?w2 = (out, w3)" by fastforce
  have f: "tasks (listAt w l) = us" "isQueue (listAt w l) = q" "controller (listAt w l) = ctrl"
    "\<And>u. action (taskAt w u) = acts u"
    using ra by (simp_all add: runs_alone_def)
  have w2: "action (taskAt ?w2 ?u) = acts ?u" "calls ?w2 = calls w"
    using f(4) by (simp_all add: subscribe_def set_listeners_def)
  have ra1: "runs_alone l us q ctrl acts ?w1"
    using ra by (intro runs_alone_list_upd) (simp_all add: runs_alone_def)
  have ra2: "runs_alone l us q ctrl acts ?w2"
    using ra1 by (simp add: runs_alone_def subscribe_def set_listeners_def)
  have out: "out = behaviour (acts ?u) ?arg"
    using execute_enter_spec(1)[of ?u ?arg ?w2] ee w2 by simp
  have k23: "lists_kept ?w2 w3"
    using execute_enter_spec(2)[of ?w2 ?u ?arg] ee by simp
  have c3: "calls w3 = calls w @ [(?u, ?arg)]"
    using execute_enter_spec(3)[of ?u ?arg ?w2] ee w2 by simp
  have ra3: "runs_alone l us q ctrl acts w3"
    using runs_alone_kept[OF ra2 k23] .
  have ti3: "taskIndex (listAt w3 l) = k"
    using kept_list_fields(2)[OF k23, of l] k by (simp add: subscribe_def set_listeners_def)
  have eq: "runTasks_loop l st lst x w = suspend l (AwaitTask st lst x ?u out) w3"
    using k f ee by (cases q) (simp_all add: runTasks_loop_def Let_def)
  show "runs_alone l us q ctrl acts (runTasks_loop l st lst x w)"
    using ra3 unfolding eq suspend_def by (simp add: runs_alone_def)
  show "taskIndex (listAt (runTasks_loop l st lst x w) l) = k"
    using ti3 unfolding eq suspend_def by simp
  show "frame (listAt (runTasks_loop l st lst x w) l) = AwaitTask st lst x ?u (behaviour (acts ?u) ?arg)"
    using out unfolding eq suspend_def by simp
  show "calls (runTasks_loop l st lst x w) = calls w @ [(?u, ?arg)]"
    using c3 unfolding eq suspend_def by simp
qed

lemma loop_exit:
  assumes ra: "runs_alone l us q ctrl acts w"
    and k: "length us \<le> taskIndex (listAt w l)"
  shows "frame (listAt (runTasks_loop l st lst x w) l) = Settled (Inr lst)"
    and "result (listAt (runTasks_loop l st lst x w) l) = lst"
    and "calls (runTasks_loop l st lst x w) = calls w"
    and "ticks (listAt (runTasks_loop l st lst x w) l) = ticks (listAt w l)"
proof -
  have "tasks (listAt w l) = us" using ra by (simp add: runs_alone_def)
  then have eq: "runTasks_loop l st lst x w = list_settle l (Inr lst) w"
    using k by (simp add: runTasks_loop_def Let_def)
  show "frame (listAt (runTasks_loop l st lst x w) l) = Settled (Inr lst)"
    and "result (listAt (runTasks_loop l st lst x w) l) = lst"
    and "calls (runTasks_loop l st lst x w) = calls w"
    and "ticks (listAt (runTasks_loop l st lst x w) l) = ticks (listAt w l)"
    unfolding eq using list_settle_fulfilled[OF ra] by simp_all
qed

lemma after_task_fulfilled:
  assumes ra: "runs_alone l us q ctrl acts w"
    and fr: "frame (listAt w l) = AwaitTask st lst x u (Inr v)"
    and k: "taskIndex (listAt w l) = k"
  shows "\<exists>w'. runs_alone l us q ctrl acts w' \<and> taskIndex (listAt w' l) = Suc k
           \<and> calls w' = calls w \<and> ticks (listAt w' l) = int k
           \<and> (if length us \<le> Suc k
               then after_task l w = w' \<and> frame (listAt w' l) = AwaitImmediate st v x
               else after_task l w = runTasks_loop l st v x w')"
proof -
  obtain r w1 where el: "execute_leave (TaskRef u) (Inr v) w = (r, w1)" by fastforce
  have r: "r = Inr v"
    using execute_leave_task(3)[of "Inr v" v u w] el by simp
  have k1: "lists_kept w w1"
    using execute_leave_task(1)[of w u "Inr v"] el by simp
  have c1: "calls w1 = calls w"
    using execute_leave_task(2)[of u "Inr v" w] el by simp
  have ra1: "runs_alone l us q ctrl acts w1" using runs_alone_kept[OF ra k1] .
  have ti1: "taskIndex (listAt w1 l) = k" using kept_list_fields(2)[OF k1, of l] k by simp
  let ?w2 = "w1\<lparr>listAt := (listAt w1)(l := (listAt w1 l)\<lparr>taskIndex := Suc k\<rparr>)\<rparr>"
  let ?w2' = "set_ticks (ListRef l) (int k) ?w2"
  have ra2: "runs_alone l us q ctrl acts ?w2'"
    using ra1 by (simp add: runs_alone_def set_ticks_def)
  then have np2: "(''empty'', Pool) \<notin> set (listeners (listAt ?w2' l))"
    by (simp add: runs_alone_def)
  obtain t3 w3 where pr: "progress (ListRef l) (int k) ?w2 = (t3, w3)" by fastforce
  have t3: "t3 = None"
    using emit_own(2)[OF np2, where name="''progress''" and e=Undefined and c="ListRef l"] pr
    by (simp add: progress_def)
  have so3: "same_objects ?w2' w3"
    using emit_own(1)[OF np2, where name="''progress''" and e=Undefined and c="ListRef l"] pr
    by (simp add: progress_def)
  have ra3: "runs_alone l us q ctrl acts w3"
    using runs_alone_kept[OF ra2 same_kept[OF so3]] .
  have ti3: "taskIndex (listAt w3 l) = Suc k"
    using kept_list_fields(2)[OF same_kept[OF so3], of l] by (simp add: set_ticks_def)
  have c3: "calls w3 = calls w"
    using so3 c1 by (simp add: same_objects_def set_ticks_def)
  have tk3: "ticks (listAt w3 l) = int k"
    using kept_list_fields(12)[OF same_kept[OF so3], of l] by (simp add: set_ticks_def)
  have us3: "tasks (listAt w3 l) = us" using ra3 by (simp add: runs_alone_def)
  have np3: "(''empty'', Pool) \<notin> set (listeners (listAt w3 l))"
    using ra3 by (simp add: runs_alone_def)
  obtain t4 w4 where em: "emit (ListRef l) ''empty'' Undefined (ListRef l) w3 = (t4, w4)"
    by fastforce
  have t4: "t4 = None"
    using emit_own(2)[OF np3, where name="''empty''" and e=Undefined and c="ListRef l"] em by simp
  have so4: "same_objects w3 w4"
    using emit_own(1)[OF np3, where name="''empty''" and e=Undefined and c="ListRef l"] em by simp
  have ra4: "runs_alone l us q ctrl acts w4"
    using runs_alone_kept[OF ra3 same_kept[OF so4]] .
  have ti4: "taskIndex (listAt w4 l) = Suc k"
    using kept_list_fields(2)[OF same_kept[OF so4], of l] ti3 by simp
  have c4: "calls w4 = calls w"
    using so4 c3 by (simp add: same_objects_def)
  have tk4: "ticks (listAt w4 l) = int k"
    using kept_list_fields(12)[OF same_kept[OF so4], of l] tk3 by simp
  let ?w5 = "suspend l (AwaitImmediate st v x)
               (w4\<lparr>listAt := (listAt w4)(l := (listAt w4 l)\<lparr>empty := True\<rparr>)\<rparr>)"
  have ra5: "runs_alone l us q ctrl acts ?w5"
    using ra4 by (simp add: runs_alone_def suspend_def)
  have at: "after_task l w =
      (if length us \<le> Suc k then ?w5 else runTasks_loop l st v x w3)"
    using fr el r ti1 pr t3 us3 ti3 em t4
    by (simp add: after_task_def Let_def)
  show ?thesis
  proof (cases "length us \<le> Suc k")
    case True
    then show ?thesis
      using at ra5 ti4 c4 tk4 by (intro exI[of _ ?w5]) (simp add: suspend_def)
  next
    case False
    then show ?thesis
      using at ra3 ti3 c3 tk3 by (intro exI[of _ w3]) simp
  qed
qed

lemma after_immediate_goes_on:
  assumes "runs_alone l us q ctrl acts w"
    and "frame (listAt w l) = AwaitImmediate st lst x"
  shows "after_immediate l w = runTasks_loop l st lst x w"
  using assms by (simp add: after_immediate_def runs_alone_def)

lemma drain_settled: "frame (listAt w l) = Settled r \<Longrightarrow> drain n l w = Some w"
  by (cases n) simp_all


lemma thread_Cons_fulfilled:
  assumes "thread (f # fs) mk p = (ps, Inr v)"
  obtains r ps' where "f (mk p) = Inr r" "thread fs mk r = (ps', Inr v)" "ps = p # ps'"
  using assms by (auto split: sum.splits prod.splits)

lemma drain_loop:
  assumes "runs_alone l us q ctrl acts w"
    and "taskIndex (listAt w l) = k" "k \<le> length us"
    and "thread (map (\<lambda>u. behaviour (acts u)) (drop k us))
           (\<lambda>p. if q then x else Context st p ctrl) lst = (ps, Inr v)"
  shows "\<exists>n w'. drain n l (runTasks_loop l st lst x w) = Some w'
           \<and> calls w' = calls w @ zip (drop k us) (map (\<lambda>p. if q then x else Context st p ctrl) ps)
           \<and> frame (listAt w' l) = Settled (Inr v) \<and> result (listAt w' l) = v
           \<and> ticks (listAt w' l) = (if k < length us then int (length us) - 1 else ticks (listAt w l))"
  using assms
proof (induction "length us - k" arbitrary: k w lst ps)
  case 0
  then have k: "k = length us" by simp
  with 0 have v: "v = lst" "ps = []" by simp_all
  have le: "length us \<le> taskIndex (listAt w l)" using 0 k by simp
  show ?case
    using loop_exit[OF "0.prems"(1) le, of st lst x] k v
    by (intro exI[of _ 0] exI[of _ "runTasks_loop l st lst x w"]) simp
next
  case (Suc m)
  let ?mk = "\<lambda>p. if q then x else Context st p ctrl"
  have k: "k < length us" using Suc.hyps(2) by simp
  have dr: "drop k us = us ! k # drop (Suc k) us"
    using k by (simp add: Cons_nth_drop_Suc)
  from Suc.prems(4) obtain r ps' where
    r: "behaviour (acts (us ! k)) (?mk lst) = Inr r"
    and th: "thread (map (\<lambda>u. behaviour (acts u)) (drop (Suc k) us)) ?mk r = (ps', Inr v)"
    and ps: "ps = lst # ps'"
    unfolding dr list.map by (rule thread_Cons_fulfilled)
  let ?W = "runTasks_loop l st lst x w"
  have W: "runs_alone l us q ctrl acts ?W" "taskIndex (listAt ?W l) = k"
    "frame (listAt ?W l) = AwaitTask st lst x (us ! k) (Inr r)"
    "calls ?W = calls w @ [(us ! k, ?mk lst)]"
    using loop_enter[OF Suc.prems(1,2) k, of st lst x] r by simp_all
  obtain w' where w': "runs_alone l us q ctrl acts w'" "taskIndex (listAt w' l) = Suc k"
    "calls w' = calls ?W" "ticks (listAt w' l) = int k"
    and br: "if length us \<le> Suc k
             then after_task l ?W = w' \<and> frame (listAt w' l) = AwaitImmediate st r x
             else after_task l ?W = runTasks_loop l st r x w'"
    using after_task_fulfilled[OF W(1,3,2)] by blast
  have m: "m = length us - Suc k" using Suc.hyps(2) by simp
  have sk: "Suc k \<le> length us" using k by simp
  obtain n w'' where ih: "drain n l (runTasks_loop l st r x w') = Some w''"
    "calls w'' = calls w' @ zip (drop (Suc k) us) (map ?mk ps')"
    "frame (listAt w'' l) = Settled (Inr v)" "result (listAt w'' l) = v"
    "ticks (listAt w'' l) = (if Suc k < length us then int (length us) - 1 else ticks (listAt w' l))"
    using Suc.hyps(1)[OF m w'(1,2) sk th] by blast
  have tk: "ticks (listAt w'' l) = (if k < length us then int (length us) - 1 else ticks (listAt w l))"
    using ih(5) w'(4) k by auto
  have calls: "calls w'' = calls w @ zip (drop k us) (map ?mk ps)"
    using ih(2) w'(3) W(4) ps dr by simp
  show ?case
  proof (cases "length us \<le> Suc k")
    case True
    with br have at: "after_task l ?W = w'" and fr: "frame (listAt w' l) = AwaitImmediate st r x"
      by simp_all
    have "drain (Suc (Suc n)) l ?W = Some w''"
      using W(3) at fr after_immediate_goes_on[OF w'(1) fr] ih(1) by simp
    then show ?thesis using calls ih(3,4) tk by blast
  next
    case False
    with br have at: "after_task l ?W = runTasks_loop l st r x w'" by simp
    have "drain (Suc n) l ?W = Some w''"
      using W(3) at ih(1) by simp
    then show ?thesis using calls ih(3,4) tk by blast
  qed
qed

lemma state_list:
  "s \<noteq> Err \<Longrightarrow> fst (state (ListRef l) s w) = None"
  "s \<noteq> Err \<Longrightarrow> same_objects (set_status (ListRef l) s w) (snd (state (ListRef l) s w))"
  by (cases s; simp add: state_def emit_def emit_list_fst emit_list_same unhandled_def)+

lemma list_execute_runTasks:
  "\<exists>w1. same_objects (set_status (ListRef l) Execute w) w1 \<and> list_execute l x w = runTasks l x w1"
proof -
  obtain t w1 where s: "state (ListRef l) Execute w = (t, w1)" by fastforce
  have "t = None" using state_list(1)[of Execute l w] s by simp
  moreover have "same_objects (set_status (ListRef l) Execute w) w1"
    using state_list(2)[of Execute l w] s by simp
  ultimately show ?thesis
    using s by (auto simp: list_execute_def)
qed

lemma list_run_threads:
  assumes ra: "runs_alone l us q ctrl acts w"
    and k: "taskIndex (listAt w l) = k" "k \<le> length us"
    and st: "st = (if falsy x then Obj (nextObj w) else x)"
    and th: "thread (map (\<lambda>u. behaviour (acts u)) (drop k us))
           (\<lambda>p. if q then x else Context st p ctrl) (Bool False) = (ps, Inr v)"
  shows "\<exists>n w'. list_run n l x w = Some w'
           \<and> calls w' = calls w @ zip (drop k us) (map (\<lambda>p. if q then x else Context st p ctrl) ps)
           \<and> frame (listAt w' l) = Settled (Inr v) \<and> result (listAt w' l) = v
           \<and> ticks (listAt w' l) = (if k < length us then int (length us) - 1 else ticks (listAt w l))"
proof -
  obtain w1 where so: "same_objects (set_status (ListRef l) Execute w) w1"
    and le: "list_execute l x w = runTasks l x w1"
    using list_execute_runTasks by blast
  have k0: "lists_kept (set_status (ListRef l) Execute w) w1" using same_kept[OF so] .
  have ra0: "runs_alone l us q ctrl acts (set_status (ListRef l) Execute w)"
    using ra by (simp add: runs_alone_def set_status_def)
  have ra1: "runs_alone l us q ctrl acts w1" using runs_alone_kept[OF ra0 k0] .
  have ti1: "taskIndex (listAt w1 l) = k"
    using kept_list_fields(2)[OF k0, of l] k by (simp add: set_status_def)
  have tk1: "ticks (listAt w1 l) = ticks (listAt w l)"
    using kept_list_fields(12)[OF k0, of l] by (simp add: set_status_def)
  have c1: "calls w1 = calls w" "nextObj w1 = nextObj w"
    using so by (simp_all add: same_objects_def set_status_def)
  let ?w2 = "w1\<lparr>objAt := (objAt w1)(nextObj w1 := []), nextObj := nextObj w1 + 1\<rparr>"
  have ra2: "runs_alone l us q ctrl acts ?w2" using ra1 by (simp add: runs_alone_def)
  have ti2: "taskIndex (listAt ?w2 l) = k" using ti1 by simp
  have rt: "runTasks l x w1 = runTasks_loop l st (Bool False) x (if falsy x then ?w2 else w1)"
    using st c1 by (simp add: runTasks_def)
  show ?thesis
  proof (cases "falsy x")
    case True
    show ?thesis
      using drain_loop[OF ra2 ti2 k(2) th] True c1 tk1
      by (simp add: list_run_def le rt cong: if_cong)
  next
    case False
    show ?thesis
      using drain_loop[OF ra1 ti1 k(2) th] False c1 tk1
      by (simp add: list_run_def le rt cong: if_cong)
  qed
qed

text \<open>
  A list of \<open>n > 0\<close> children that runs alone and whose children all fulfil ends with
  \<^verbatim>\<open>ticks\<close> \<open>n - 1\<close>: the last \<^verbatim>\<open>progress\<close> was called with the last index.
\<close>

lemma list_ends_one_tick_short:
  assumes "runs_alone l us q ctrl acts w"
    and "taskIndex (listAt w l) = 0" and "us \<noteq> []"
    and "st = (if falsy x then Obj (nextObj w) else x)"
    and "thread (map (\<lambda>u. behaviour (acts u)) us)
           (\<lambda>p. if q then x else Context st p ctrl) (Bool False) = (ps, Inr v)"
  shows "\<exists>n w'. list_run n l x w = Some w' \<and> frame (listAt w' l) = Settled (Inr v)
           \<and> ticks (listAt w' l) = int (length us) - 1"
proof -
  have th: "thread (map (\<lambda>u. behaviour (acts u)) (drop 0 us))
              (\<lambda>p. if q then x else Context st p ctrl) (Bool False) = (ps, Inr v)"
    using assms(5) by simp
  show ?thesis
    using list_run_threads[OF assms(1,2) _ assms(4) th] assms(3) by auto
qed



lemma loop_enter_any:
  fixes w l st lst x
  defines "u \<equiv> tasks (listAt w l) ! taskIndex (listAt w l)"
  defines "arg \<equiv> if isQueue (listAt w l) then x else Context st lst (controller (listAt w l))"
  assumes k: "taskIndex (listAt w l) < length (tasks (listAt w l))"
  shows "calls (runTasks_loop l st lst x w) = calls w @ [(u, arg)]"
    and "frame (listAt (runTasks_loop l st lst x w) l)
           = AwaitTask st lst x u (behaviour (action (taskAt w u)) arg)"
    and "objAt (runTasks_loop l st lst x w) = objAt w"
    and "nextObj (runTasks_loop l st lst x w) = nextObj w"
proof -
  let ?w1 = "w\<lparr>listAt := (listAt w)(l := (listAt w l)\<lparr>empty := False\<rparr>)\<rparr>"
  let ?w2 = "subscribe u l ?w1"
  obtain out w3 where ee: "execute_enter u arg ?w2 = (out, w3)" by fastforce
  have w2: "action (taskAt ?w2 u) = action (taskAt w u)" "calls ?w2 = calls w"
    "objAt ?w2 = objAt w" "nextObj ?w2 = nextObj w"
    by (simp_all add: subscribe_def set_listeners_def)
  have out: "out = behaviour (action (taskAt w u)) arg"
    using execute_enter_spec(1)[of u arg ?w2] ee w2 by simp
  have k23: "lists_kept ?w2 w3"
    using execute_enter_spec(2)[of ?w2 u arg] ee by simp
  have c3: "calls w3 = calls w @ [(u, arg)]"
    using execute_enter_spec(3)[of u arg ?w2] ee w2 by simp
  have o3: "objAt w3 = objAt w" "nextObj w3 = nextObj w"
    using k23 w2 by (simp_all add: lists_kept_def)
  have eq: "runTasks_loop l st lst x w = suspend l (AwaitTask st lst x u out) w3"
    using k ee unfolding u_def arg_def
    by (cases "isQueue (listAt w l)") (simp_all add: runTasks_loop_def Let_def)
  show "calls (runTasks_loop l st lst x w) = calls w @ [(u, arg)]"
    and "frame (listAt (runTasks_loop l st lst x w) l)
           = AwaitTask st lst x u (behaviour (action (taskAt w u)) arg)"
    and "objAt (runTasks_loop l st lst x w) = objAt w"
    and "nextObj (runTasks_loop l st lst x w) = nextObj w"
    using c3 out o3 unfolding eq suspend_def by simp_all
qed

text \<open>
  C10. A list with \<^verbatim>\<open>isQueue\<close> false that still has a child to run is executed with \<open>x\<close>:
  the child at the index is called with \<^verbatim>\<open>{state, last, controller}\<close> where \<^verbatim>\<open>last\<close> is
  \<^verbatim>\<open>false\<close> and \<^verbatim>\<open>state\<close> is \<open>x\<close> itself, or, when \<open>x\<close> is falsy, a new object: its reference
  is the next free one, it has no properties, and the next free reference moves on. For an
  input that is not falsy no object is created.
\<close>

theorem C10_state_and_first_last:
  assumes "\<not> isQueue (listAt w l)"
    and "taskIndex (listAt w l) < length (tasks (listAt w l))"
  shows "calls (list_execute l x w) =
           calls w @ [(tasks (listAt w l) ! taskIndex (listAt w l),
                       Context (if falsy x then Obj (nextObj w) else x) (Bool False)
                         (controller (listAt w l)))]
       \<and> objAt (list_execute l x w) = (if falsy x then (objAt w)(nextObj w := []) else objAt w)
       \<and> nextObj (list_execute l x w) = (if falsy x then nextObj w + 1 else nextObj w)"
proof -
  obtain w1 where so: "same_objects (set_status (ListRef l) Execute w) w1"
    and le: "list_execute l x w = runTasks l x w1"
    using list_execute_runTasks by blast
  have k0: "lists_kept (set_status (ListRef l) Execute w) w1" using same_kept[OF so] .
  have f: "tasks (listAt w1 l) = tasks (listAt w l)" "taskIndex (listAt w1 l) = taskIndex (listAt w l)"
    "isQueue (listAt w1 l) = isQueue (listAt w l)" "controller (listAt w1 l) = controller (listAt w l)"
    using kept_list_fields(1,2,5,6)[OF k0, of l] by (simp_all add: set_status_def)
  have c1: "calls w1 = calls w" "nextObj w1 = nextObj w" "objAt w1 = objAt w"
    using so by (simp_all add: same_objects_def set_status_def)
  let ?w2 = "w1\<lparr>objAt := (objAt w1)(nextObj w1 := []), nextObj := nextObj w1 + 1\<rparr>"
  have k1: "taskIndex (listAt w1 l) < length (tasks (listAt w1 l))"
    using assms(2) f by simp
  have k2: "taskIndex (listAt ?w2 l) < length (tasks (listAt ?w2 l))"
    using k1 by simp
  show ?thesis
  proof (cases "falsy x")
    case True
    then show ?thesis
      using loop_enter_any(1,3,4)[OF k2, of "Obj (nextObj w1)" "Bool False" x] assms(1) f c1
      by (simp add: le runTasks_def)
  next
    case False
    then show ?thesis
      using loop_enter_any(1,3,4)[OF k1, of x "Bool False" x] assms(1) f c1
      by (simp add: le runTasks_def)
  qed
qed

text \<open>The list of the test, executed with \<^verbatim>\<open>null\<close> and with an object.\<close>

theorem C10_state_and_first_last_witness:
  "calls (list_execute 0 Null two_steps) = [(0, Context (Obj 0) (Bool False) (ListRef 0))]
   \<and> objAt (list_execute 0 Null two_steps) 0 = []
   \<and> nextObj (list_execute 0 Null two_steps) = 1
   \<and> calls (list_execute 0 (Obj 7) two_steps) = [(0, Context (Obj 7) (Bool False) (ListRef 0))]
   \<and> nextObj (list_execute 0 (Obj 7) two_steps) = 0"
  using C10_state_and_first_last[of two_steps 0 Null] C10_state_and_first_last[of two_steps 0 "Obj 7"]
  by (simp add: two_steps_def put_list_def put_task_def blank_def new_TaskList_def)

subsection \<open>A bucket whose lists have nothing to run\<close>

lemma same_bucket_fields:
  assumes "same_objects w w'"
  shows "tasks (theBucket w') = tasks (theBucket w)"
    and "taskIndex (theBucket w') = taskIndex (theBucket w)"
    and "taskLists (theBucket w') = taskLists (theBucket w)"
    and "collect (theBucket w') = collect (theBucket w)"
    and "parallel (theBucket w') = parallel (theBucket w)"
    and "bframe (theBucket w') = bframe (theBucket w)"
    and "result (theBucket w') = result (theBucket w)"
proof -
  have b: "(theBucket w')\<lparr>listeners := [], ticks := 0\<rparr> = (theBucket w)\<lparr>listeners := [], ticks := 0\<rparr>"
    using assms by (simp add: same_objects_def)
  show "tasks (theBucket w') = tasks (theBucket w)" using arg_cong[OF b, of tasks] by simp
  show "taskIndex (theBucket w') = taskIndex (theBucket w)" using arg_cong[OF b, of taskIndex] by simp
  show "taskLists (theBucket w') = taskLists (theBucket w)" using arg_cong[OF b, of taskLists] by simp
  show "collect (theBucket w') = collect (theBucket w)" using arg_cong[OF b, of collect] by simp
  show "parallel (theBucket w') = parallel (theBucket w)" using arg_cong[OF b, of parallel] by simp
  show "bframe (theBucket w') = bframe (theBucket w)" using arg_cong[OF b, of bframe] by simp
  show "result (theBucket w') = result (theBucket w)" using arg_cong[OF b, of result] by simp
qed

lemma settle_refl [simp]: "lists_settle S w w"
  by (simp add: lists_settle_def)

lemma settle_trans:
  assumes "lists_settle S w w1" and "lists_settle T w1 w2"
  shows "lists_settle (S \<union> T) w w2"
  using assms unfolding lists_settle_def by simp

lemma settle_mono: "lists_settle S w w' \<Longrightarrow> S \<subseteq> T \<Longrightarrow> lists_settle T w w'"
  unfolding lists_settle_def by auto

lemma same_settle: "same_objects w w' \<Longrightarrow> lists_settle S w w'"
  using kept_list_fields(1,2,7)[OF same_kept, of w w'] same_bucket_fields(1-5)[of w w']
  by (simp add: lists_settle_def same_objects_def)

lemma settle_bucket_fields:
  assumes "lists_settle S w w'"
  shows "tasks (theBucket w') = tasks (theBucket w)"
    and "taskIndex (theBucket w') = taskIndex (theBucket w)"
    and "taskLists (theBucket w') = taskLists (theBucket w)"
    and "collect (theBucket w') = collect (theBucket w)"
    and "parallel (theBucket w') = parallel (theBucket w)"
    and "status (taskAt w' u) = status (taskAt w u)"
    and "result (taskAt w' u) = result (taskAt w u)"
proof -
  have t: "(taskAt w' u)\<lparr>listeners := []\<rparr> = (taskAt w u)\<lparr>listeners := []\<rparr>"
    using assms by (simp add: lists_settle_def)
  show "tasks (theBucket w') = tasks (theBucket w)"
    and "taskIndex (theBucket w') = taskIndex (theBucket w)"
    and "taskLists (theBucket w') = taskLists (theBucket w)"
    and "collect (theBucket w') = collect (theBucket w)"
    and "parallel (theBucket w') = parallel (theBucket w)"
    using assms by (simp_all add: lists_settle_def)
  show "status (taskAt w' u) = status (taskAt w u)" using arg_cong[OF t, of status] by simp
  show "result (taskAt w' u) = result (taskAt w u)" using arg_cong[OF t, of result] by simp
qed

lemma list_settle_any:
  "lists_settle {l} w (list_settle l (Inr v) w)"
  "frame (listAt (list_settle l (Inr v) w) l) = Settled (Inr v)"
proof -
  let ?w0 = "set_status (ListRef l) Done (set_result (ListRef l) v w)"
  obtain t w1 where s: "state (ListRef l) Done (set_result (ListRef l) v w) = (t, w1)" by fastforce
  have t: "t = None" using state_list(1)[of Done l "set_result (ListRef l) v w"] s by simp
  have so: "same_objects ?w0 w1"
    using state_list(2)[of Done l "set_result (ListRef l) v w"] s by simp
  have r: "result (listAt w1 l) = v"
    using kept_list_fields(9)[OF same_kept[OF so], of l] by (simp add: set_status_def set_result_def)
  have a: "lists_settle {l} w ?w0"
    by (simp add: lists_settle_def set_status_def set_result_def)
  have b: "lists_settle {l} w w1"
    using settle_trans[OF a same_settle[OF so, of "{l}"]] by simp
  have c: "lists_settle {l} w1 (suspend l (Settled (Inr v)) w1)"
    by (simp add: lists_settle_def suspend_def)
  have eq: "list_settle l (Inr v) w = suspend l (Settled (Inr v)) w1"
    using r by (simp add: list_settle_def execute_leave_def s t resultOf_def)
  show "lists_settle {l} w (list_settle l (Inr v) w)"
    unfolding eq using settle_trans[OF b c] by simp
  show "frame (listAt (list_settle l (Inr v) w) l) = Settled (Inr v)"
    unfolding eq by (simp add: suspend_def)
qed

lemma list_execute_exhausted:
  assumes "length (tasks (listAt w l)) \<le> taskIndex (listAt w l)"
  shows "lists_settle {l} w (list_execute l x w)"
    and "frame (listAt (list_execute l x w) l) = Settled (Inr (Bool False))"
proof -
  obtain w1 where so: "same_objects (set_status (ListRef l) Execute w) w1"
    and le: "list_execute l x w = runTasks l x w1"
    using list_execute_runTasks by blast
  have a: "lists_settle {l} w (set_status (ListRef l) Execute w)"
    by (simp add: lists_settle_def set_status_def)
  have b: "lists_settle {l} w w1"
    using settle_trans[OF a same_settle[OF so, of "{l}"]] by simp
  let ?w2 = "if falsy x then w1\<lparr>objAt := (objAt w1)(nextObj w1 := []), nextObj := nextObj w1 + 1\<rparr> else w1"
  have c: "lists_settle {l} w ?w2"
    using b by (simp add: lists_settle_def)
  have ex1: "length (tasks (listAt w1 l)) \<le> taskIndex (listAt w1 l)"
    using b assms by (simp add: lists_settle_def)
  have loop: "runTasks_loop l s p x w' = list_settle l (Inr p) w'"
    if "length (tasks (listAt w' l)) \<le> taskIndex (listAt w' l)" for s p w'
    using that by (simp add: runTasks_loop_def Let_def)
  have eq: "list_execute l x w = list_settle l (Inr (Bool False)) ?w2"
    using ex1 by (cases "falsy x") (simp_all add: le runTasks_def loop)
  show "lists_settle {l} w (list_execute l x w)"
    unfolding eq using settle_trans[OF c list_settle_any(1)[of l ?w2 "Bool False"]] by simp
  show "frame (listAt (list_execute l x w) l) = Settled (Inr (Bool False))"
    unfolding eq by (rule list_settle_any(2))
qed

lemma fold_list_execute:
  assumes "\<forall>l \<in> set ls. length (tasks (listAt w l)) \<le> taskIndex (listAt w l)"
  shows "lists_settle (set ls) w (fold (\<lambda>l. list_execute l x) ls w)
       \<and> (\<forall>l \<in> set ls. frame (listAt (fold (\<lambda>l. list_execute l x) ls w) l) = Settled (Inr (Bool False)))"
  using assms
proof (induction ls arbitrary: w)
  case Nil
  then show ?case by simp
next
  case (Cons a ls)
  let ?w1 = "list_execute a x w"
  let ?W = "fold (\<lambda>l. list_execute l x) ls ?w1"
  have ea: "length (tasks (listAt w a)) \<le> taskIndex (listAt w a)" using Cons.prems by simp
  have s1: "lists_settle {a} w ?w1" and f1: "frame (listAt ?w1 a) = Settled (Inr (Bool False))"
    using list_execute_exhausted[OF ea] by simp_all
  have ex1: "\<forall>l \<in> set ls. length (tasks (listAt ?w1 l)) \<le> taskIndex (listAt ?w1 l)"
    using Cons.prems s1 by (simp add: lists_settle_def)
  have ih: "lists_settle (set ls) ?w1 ?W"
    "\<forall>l \<in> set ls. frame (listAt ?W l) = Settled (Inr (Bool False))"
    using Cons.IH[OF ex1] by simp_all
  have tr: "lists_settle (set (a # ls)) w ?W"
    using settle_trans[OF s1 ih(1)] by simp
  have fa: "frame (listAt ?W a) = Settled (Inr (Bool False))"
  proof (cases "a \<in> set ls")
    case True
    then show ?thesis using ih(2) by simp
  next
    case False
    then show ?thesis using ih(1) f1 by (simp add: lists_settle_def)
  qed
  show ?case using tr fa ih(2) by simp
qed

lemma make_lists_spec:
  assumes "\<forall>l \<in> set (taskLists (theBucket w)). length (tasks (listAt w l)) \<le> taskIndex (listAt w l)"
  shows "(\<forall>l \<in> set (taskLists (theBucket (make_lists n w))).
            length (tasks (listAt (make_lists n w) l)) \<le> taskIndex (listAt (make_lists n w) l))
       \<and> taskAt (make_lists n w) = taskAt w \<and> calls (make_lists n w) = calls w
       \<and> (theBucket (make_lists n w))\<lparr>taskLists := []\<rparr> = (theBucket w)\<lparr>taskLists := []\<rparr>"
  using assms
proof (induction n arbitrary: w)
  case 0
  then show ?case by simp
next
  case (Suc n)
  let ?l = "nextList w"
  let ?t = "new_TaskList (ListRef ?l) [] ''no description given'' (Some BucketRef) True"
  let ?w1 = "pause ?l (w\<lparr>listAt := (listAt w)(?l := ?t), nextList := ?l + 1\<rparr>)"
  let ?w2 = "set_listeners (ListRef ?l) (listeners (listAt ?w1 ?l) @ pool_listeners) ?w1"
  let ?w3 = "?w2\<lparr>theBucket := (theBucket ?w2)\<lparr>taskLists := taskLists (theBucket ?w2) @ [?l]\<rparr>\<rparr>"
  have eq: "make_lists (Suc n) w = make_lists n ?w3"
    by (simp add: Let_def)
  have ex: "\<forall>l \<in> set (taskLists (theBucket ?w3)). length (tasks (listAt ?w3 l)) \<le> taskIndex (listAt ?w3 l)"
    using Suc.prems by (auto simp: pause_def set_listeners_def new_TaskList_def)
  have f: "taskAt ?w3 = taskAt w" "calls ?w3 = calls w"
    "(theBucket ?w3)\<lparr>taskLists := []\<rparr> = (theBucket w)\<lparr>taskLists := []\<rparr>"
    by (simp_all add: pause_def set_listeners_def)
  show ?case
    unfolding eq using Suc.IH[OF ex] f by simp
qed

lemma bucket_settle_spec:
  "calls (bucket_settle out w) = calls w"
  "status (taskAt (bucket_settle out w) u) = status (taskAt w u)"
  "taskIndex (theBucket (bucket_settle out w)) = taskIndex (theBucket w)"
  "\<exists>r. bframe (theBucket (bucket_settle out w)) = BSettled r"
  "out = Inr v \<Longrightarrow> bframe (theBucket (bucket_settle out w)) = BSettled (Inr v)"
proof -
  have main: "calls (bucket_settle out w) = calls w
      \<and> status (taskAt (bucket_settle out w) u) = status (taskAt w u)
      \<and> taskIndex (theBucket (bucket_settle out w)) = taskIndex (theBucket w)
      \<and> (\<exists>r. bframe (theBucket (bucket_settle out w)) = BSettled r)
      \<and> (\<forall>v. out = Inr v \<longrightarrow> bframe (theBucket (bucket_settle out w)) = BSettled (Inr v))"
  proof (cases out)
    case (Inl e)
    let ?w0 = "set_error BucketRef e w"
    obtain t w1 where s: "emit BucketRef ''error'' e BucketRef ?w0 = (t, w1)" by fastforce
    have so: "same_objects ?w0 w1"
      using emit_bucket_same[of ?w0 "''error''" e BucketRef] s by (simp add: emit_def)
    have f: "calls w1 = calls w" "status (taskAt w1 u) = status (taskAt w u)"
      "taskIndex (theBucket w1) = taskIndex (theBucket w)"
      using settle_bucket_fields(6)[OF same_settle[OF so, of "{}"], of u]
        same_bucket_fields(2)[OF so] so
      by (simp_all add: same_objects_def set_error_def)
    show ?thesis
      using Inl f
      by (cases t) (simp_all add: bucket_settle_def execute_leave_def execute_catch_def s set_status_def)
  next
    case (Inr v)
    let ?w0 = "set_status BucketRef Done (set_result BucketRef v w)"
    obtain t w1 where s: "emit BucketRef ''done'' Undefined BucketRef ?w0 = (t, w1)" by fastforce
    have t: "t = None"
      using emit_bucket_fst[of "''done''" Undefined BucketRef ?w0] s
      by (simp add: emit_def unhandled_def)
    have so: "same_objects ?w0 w1"
      using emit_bucket_same[of ?w0 "''done''" Undefined BucketRef] s by (simp add: emit_def)
    have f: "calls w1 = calls w" "status (taskAt w1 u) = status (taskAt w u)"
      "taskIndex (theBucket w1) = taskIndex (theBucket w)" "result (theBucket w1) = v"
      using settle_bucket_fields(6)[OF same_settle[OF so, of "{}"], of u]
        same_bucket_fields(2,7)[OF so] so
      by (simp_all add: same_objects_def set_status_def set_result_def)
    show ?thesis
      using Inr f
      by (simp add: bucket_settle_def execute_leave_def state_def s t resultOf_def)
  qed
  show "calls (bucket_settle out w) = calls w"
    "status (taskAt (bucket_settle out w) u) = status (taskAt w u)"
    "taskIndex (theBucket (bucket_settle out w)) = taskIndex (theBucket w)"
    "\<exists>r. bframe (theBucket (bucket_settle out w)) = BSettled r"
    "out = Inr v \<Longrightarrow> bframe (theBucket (bucket_settle out w)) = BSettled (Inr v)"
    using main by blast+
qed

lemma after_all_fulfilled:
  assumes "bframe (theBucket w) = AwaitAll x"
    and "\<forall>l \<in> set (taskLists (theBucket w)). frame (listAt w l) = Settled (Inr (Bool False))"
  shows "after_all w =
           bucket_settle
             (case collect (theBucket w) of
                Some f \<Rightarrow> f (map (taskAt w) (tasks (theBucket w))) x
              | None \<Rightarrow> Inr (Arr (map (\<lambda>u. result (taskAt w u)) (tasks (theBucket w))))) w"
proof -
  have a: "find (\<lambda>l. rejected (frame (listAt w l))) (taskLists (theBucket w)) = None"
    using assms(2) by (simp add: find_None_iff)
  have b: "list_all (\<lambda>l. fulfilled (frame (listAt w l))) (taskLists (theBucket w))"
    using assms(2) by (simp add: list_all_iff)
  show ?thesis
    using assms(1) a b by (simp add: after_all_def Let_def)
qed

text \<open>
  A bucket whose lists are all at the end of their queues, a new bucket in particular:
  \<^verbatim>\<open>execute\<close> calls no action, changes the status of no task, hands out nothing and
  settles the promise of the bucket before any step.
\<close>

lemma bucket_execute_exhausted:
  assumes "\<forall>l \<in> set (taskLists (theBucket w)). length (tasks (listAt w l)) \<le> taskIndex (listAt w l)"
  shows "calls (bucket_execute x w) = calls w"
    and "status (taskAt (bucket_execute x w) u) = status (taskAt w u)"
    and "taskIndex (theBucket (bucket_execute x w)) = taskIndex (theBucket w)"
    and "\<exists>r. bframe (theBucket (bucket_execute x w)) = BSettled r"
    and "collect (theBucket w) = None \<Longrightarrow>
           bframe (theBucket (bucket_execute x w)) =
             BSettled (Inr (Arr (map (\<lambda>u. result (taskAt w u)) (tasks (theBucket w)))))"
proof -
  let ?w0 = "set_status BucketRef Execute w"
  obtain t w1 where s: "state BucketRef Execute w = (t, w1)" by fastforce
  have t: "t = None"
    using emit_bucket_fst[of "''execute''" Undefined BucketRef ?w0] s
    by (simp add: state_def emit_def unhandled_def)
  have so: "same_objects ?w0 w1"
    using emit_bucket_same[of ?w0 "''execute''" Undefined BucketRef] s
    by (simp add: state_def emit_def)
  have s01: "lists_settle {} w w1"
    using settle_trans[OF _ same_settle[OF so, of "{}"], of "{}" w]
    by (simp add: lists_settle_def set_status_def)
  have ex1: "\<forall>l \<in> set (taskLists (theBucket w1)). length (tasks (listAt w1 l)) \<le> taskIndex (listAt w1 l)"
    using assms s01 settle_bucket_fields(3)[OF s01] by (simp add: lists_settle_def)
  let ?n = "nat (parallel (theBucket w1) - int (length (taskLists (theBucket w1))))"
  let ?w2 = "make_lists ?n w1"
  note m = make_lists_spec[OF ex1, of ?n]
  have b2: "(theBucket ?w2)\<lparr>taskLists := []\<rparr> = (theBucket w1)\<lparr>taskLists := []\<rparr>"
    using m by simp
  let ?ls = "taskLists (theBucket ?w2)"
  let ?w3 = "fold (\<lambda>l. list_execute l x) ?ls ?w2"
  have ex2: "\<forall>l \<in> set ?ls. length (tasks (listAt ?w2 l)) \<le> taskIndex (listAt ?w2 l)"
    using m by simp
  note f = fold_list_execute[OF ex2, of x]
  have s23: "lists_settle (set ?ls) ?w2 ?w3" using f by simp
  let ?w4 = "?w3\<lparr>theBucket := (theBucket ?w3)\<lparr>bframe := AwaitAll x\<rparr>\<rparr>"
  have fr4: "\<forall>l \<in> set (taskLists (theBucket ?w4)). frame (listAt ?w4 l) = Settled (Inr (Bool False))"
    using f settle_bucket_fields(3)[OF s23] by simp
  have eq: "bucket_execute x w = after_all ?w4"
    by (simp add: bucket_execute_def s t Let_def)
  have c4: "calls ?w4 = calls w"
    using s23 m s01 by (simp add: lists_settle_def)
  have st4: "status (taskAt ?w4 u) = status (taskAt w u)" "result (taskAt ?w4 u) = result (taskAt w u)" for u
    using settle_bucket_fields(6,7)[OF s23, of u] settle_bucket_fields(6,7)[OF s01, of u] m
    by simp_all
  have b4: "taskIndex (theBucket ?w4) = taskIndex (theBucket w)"
    "tasks (theBucket ?w4) = tasks (theBucket w)"
    "collect (theBucket ?w4) = collect (theBucket w)"
    using settle_bucket_fields(1,2,4)[OF s23] settle_bucket_fields(1,2,4)[OF s01]
      arg_cong[OF b2, of taskIndex] arg_cong[OF b2, of tasks] arg_cong[OF b2, of collect]
    by simp_all
  have aa: "after_all ?w4 =
           bucket_settle
             (case collect (theBucket ?w4) of
                Some f \<Rightarrow> f (map (taskAt ?w4) (tasks (theBucket ?w4))) x
              | None \<Rightarrow> Inr (Arr (map (\<lambda>u. result (taskAt ?w4 u)) (tasks (theBucket ?w4))))) ?w4"
    by (rule after_all_fulfilled[OF _ fr4]) simp
  show "calls (bucket_execute x w) = calls w"
    unfolding eq aa using c4 by (simp add: bucket_settle_spec(1))
  show "status (taskAt (bucket_execute x w) u) = status (taskAt w u)"
    unfolding eq aa using st4(1) by (simp add: bucket_settle_spec(2))
  show "taskIndex (theBucket (bucket_execute x w)) = taskIndex (theBucket w)"
    unfolding eq aa using b4(1) by (simp add: bucket_settle_spec(3))
  show "\<exists>r. bframe (theBucket (bucket_execute x w)) = BSettled r"
    unfolding eq aa by (rule bucket_settle_spec(4))
  show "bframe (theBucket (bucket_execute x w)) =
             BSettled (Inr (Arr (map (\<lambda>u. result (taskAt w u)) (tasks (theBucket w)))))"
    if "collect (theBucket w) = None"
  proof -
    have "(case collect (theBucket ?w4) of
                Some f \<Rightarrow> f (map (taskAt ?w4) (tasks (theBucket ?w4))) x
              | None \<Rightarrow> Inr (Arr (map (\<lambda>u. result (taskAt ?w4 u)) (tasks (theBucket ?w4)))))
          = Inr (Arr (map (\<lambda>u. result (taskAt w u)) (tasks (theBucket w))))"
      using that b4 st4(2) by simp
    then show ?thesis
      unfolding eq aa by (rule bucket_settle_spec(5))
  qed
qed

text \<open>
  C4. The bucket of the test, three tasks on two lists, is executed: both lists are
  created with an empty queue, fulfil at once and are never fed, so the promise of the
  bucket fulfils before any step with three times \<^verbatim>\<open>undefined\<close>; no action was called and
  every task is still created.
\<close>

theorem C4_bucket_runs_no_task:
  "bframe (theBucket (bucket_execute Null three_in_two))
     = BSettled (Inr (Arr [Undefined, Undefined, Undefined]))
   \<and> calls (bucket_execute Null three_in_two) = []
   \<and> map (\<lambda>u. status (taskAt (bucket_execute Null three_in_two) u)) [0, 1, 2]
       = [Created, Created, Created]
   \<and> taskIndex (theBucket (bucket_execute Null three_in_two)) = 0
   \<and> (tasks (theBucket three_in_two), parallel (theBucket three_in_two)) = ([0, 1, 2], 2)"
proof -
  have ex: "\<forall>l \<in> set (taskLists (theBucket three_in_two)).
              length (tasks (listAt three_in_two l)) \<le> taskIndex (listAt three_in_two l)"
    by (simp add: three_in_two_def put_bucket_def new_TaskBucket_def)
  have c: "collect (theBucket three_in_two) = None"
    by (simp add: three_in_two_def put_bucket_def new_TaskBucket_def)
  show ?thesis
    using bucket_execute_exhausted(1,3)[OF ex, of Null] bucket_execute_exhausted(2)[OF ex, of Null]
      bucket_execute_exhausted(5)[OF ex c, of Null]
    by (simp add: three_in_two_def put_bucket_def put_task_def blank_def new_TaskBucket_def new_Task_def)
qed

subsection \<open>What a list gives to its children, in every store\<close>

text \<open>
  No emission, also none that makes the bucket feed a list or resume its lists, changes a
  frame, \<^verbatim>\<open>isQueue\<close>, a controller or an action, and none calls an action.
\<close>

lemma quiet_refl [simp]: "quiet w w"
  by (simp add: quiet_def)

lemma quiet_trans: "quiet w w1 \<Longrightarrow> quiet w1 w2 \<Longrightarrow> quiet w w2"
  by (simp add: quiet_def)

lemma shape_refl [simp]: "shape_kept l w w"
  by (simp add: shape_kept_def)

lemma shape_trans: "shape_kept l w w1 \<Longrightarrow> shape_kept l w1 w2 \<Longrightarrow> shape_kept l w w2"
  unfolding shape_kept_def by metis

lemma quiet_shape: "quiet w w' \<Longrightarrow> shape_kept l w w'"
  by (simp add: quiet_def shape_kept_def)

lemma kept_quiet: "lists_kept w w' \<Longrightarrow> calls w' = calls w \<Longrightarrow> quiet w w'"
  using kept_list_fields(5,6,7)[of w w'] kept_list_fields(11)[of w w']
  by (simp add: quiet_def)

lemma same_quiet: "same_objects w w' \<Longrightarrow> quiet w w'"
  using kept_quiet[OF same_kept] by (simp add: same_objects_def)

lemma fold_resume_quiet: "quiet w (fold resume ls w)"
proof (induction ls arbitrary: w)
  case Nil
  then show ?case by simp
next
  case (Cons a ls)
  have "quiet w (resume a w)" by (simp add: quiet_def resume_def)
  then show ?case using quiet_trans[OF _ Cons.IH[of "resume a w"]] by simp
qed

lemma feed_quiet: "quiet w (snd (feed l w))"
proof (cases "length (tasks (theBucket w)) \<le> taskIndex (theBucket w)")
  case True
  then show ?thesis by (simp add: feed_def Let_def checkDone_def fold_resume_quiet)
next
  case False
  then show ?thesis by (simp add: feed_def Let_def addTask_queue_eq quiet_def)
qed

lemma pool_quiet: "quiet w (snd (pool name e c w))"
proof (cases "name = ''empty''")
  case True
  then show ?thesis by (cases c) (simp_all add: pool_def feed_quiet)
next
  case False
  then show ?thesis using same_quiet[OF pool_same] by simp
qed

lemma notify_list_quiet: "quiet w (snd (notify_list ls name e c w))"
proof (induction ls arbitrary: w)
  case Nil
  then show ?case by simp
next
  case (Cons a ls)
  obtain n k where a: "a = (n, k)" by (cases a)
  show ?case
  proof (cases "n = name \<and> k = Pool")
    case True
    obtain t w1 where p: "pool name e c w = (t, w1)" by fastforce
    have s1: "quiet w w1" using pool_quiet[of w name e c] p by simp
    have s2: "quiet w1 (snd (notify_list ls name e c w1))" using Cons.IH[of w1] .
    show ?thesis
      using True a p s1 quiet_trans[OF s1 s2] by (cases t) simp_all
  next
    case False
    then show ?thesis using Cons a by auto
  qed
qed

lemma emit_list_quiet: "quiet w (snd (emit_list l name e c w))"
proof -
  let ?w1 = "logged (ListRef l) name e c w"
  let ?ls = "listeners (listAt w l)"
  let ?w2 = "set_listeners (ListRef l) (filter (stays name) ?ls) ?w1"
  have s1: "quiet w ?w1"
    by (simp add: logged_def quiet_def)
  have s2: "quiet w ?w2"
    by (simp add: logged_def set_listeners_def quiet_def)
  have s3: "quiet ?w2 (snd (notify_list ?ls name e c ?w2))"
    by (rule notify_list_quiet)
  have ls: "listeners (listAt ?w1 l) = ?ls"
    by (simp add: logged_def)
  show ?thesis
    unfolding emit_list_def Let_def ls
    using s1 quiet_trans[OF s2 s3] by simp
qed

lemma emit_quiet: "quiet w (snd (emit r name e c w))"
  by (cases r) (simp_all add: emit_def emit_list_quiet same_quiet[OF emit_task_same]
      same_quiet[OF emit_bucket_same])

lemma setters_quiet:
  "quiet w (set_status r s w)" "quiet w (set_result r v w)" "quiet w (set_error r v w)"
  "quiet w (set_ticks r k w)"
  by (cases r; simp add: quiet_def set_status_def set_result_def set_error_def set_ticks_def)+

lemma state_quiet: "quiet w (snd (state r s w))"
  unfolding state_def by (rule quiet_trans[OF setters_quiet(1) emit_quiet])

lemma progress_quiet: "quiet w (snd (progress r k w))"
  unfolding progress_def by (rule quiet_trans[OF setters_quiet(4) emit_quiet])

lemma execute_catch_quiet: "quiet w (snd (execute_catch r e w))"
proof -
  obtain t w1 where s: "emit r ''error'' e r (set_error r e w) = (t, w1)" by fastforce
  have "quiet (set_error r e w) w1"
    using emit_quiet[of "set_error r e w" r "''error''" e r] s by simp
  then have q1: "quiet w w1"
    using quiet_trans[OF setters_quiet(3)] by blast
  have q2: "quiet w (set_status r Err w1)"
    using quiet_trans[OF q1 setters_quiet(1)] .
  show ?thesis
    using q1 q2 by (cases t) (simp_all add: execute_catch_def s)
qed

lemma execute_leave_quiet: "quiet w (snd (execute_leave r out w))"
proof (cases out)
  case (Inl e)
  then show ?thesis by (simp add: execute_leave_def execute_catch_quiet)
next
  case (Inr v)
  obtain t w1 where s: "state r Done (set_result r v w) = (t, w1)" by fastforce
  have "quiet (set_result r v w) w1"
    using state_quiet[of "set_result r v w" r Done] s by simp
  then have q1: "quiet w w1"
    using quiet_trans[OF setters_quiet(2)] by blast
  show ?thesis
  proof (cases t)
    case None
    then show ?thesis using Inr q1 by (simp add: execute_leave_def s)
  next
    case (Some y)
    then show ?thesis
      using Inr quiet_trans[OF q1 execute_catch_quiet, of r y] by (simp add: execute_leave_def s)
  qed
qed


lemma given_kept:
  assumes "shape_kept m w w'"
  shows "given w' l st lst x = given w l st lst x"
  using assms by (simp add: given_def shape_kept_def)

lemma suspend_shape: "shape_kept l w (suspend l f w)"
  by (simp add: shape_kept_def suspend_def)

lemma list_settle_shape:
  "shape_kept l w (list_settle l out w)"
  "calls (list_settle l out w) = calls w"
  "\<exists>y. frame (listAt (list_settle l (Inl e) w) l) = Settled (Inl y)"
proof -
  have both: "shape_kept l w (list_settle l out' w) \<and> calls (list_settle l out' w) = calls w
      \<and> frame (listAt (list_settle l out' w) l) = Settled (fst (execute_leave (ListRef l) out' w))"
    for out'
  proof -
    obtain r w1 where el: "execute_leave (ListRef l) out' w = (r, w1)" by fastforce
    have q: "quiet w w1" using execute_leave_quiet[of w "ListRef l" out'] el by simp
    have eq: "list_settle l out' w = suspend l (Settled r) w1"
      by (simp add: list_settle_def el)
    show ?thesis
      unfolding eq using shape_trans[OF quiet_shape[OF q] suspend_shape] q
      by (simp add: quiet_def suspend_def el)
  qed
  have rej: "\<exists>y. fst (execute_leave (ListRef l) (Inl e) w) = Inl y"
    by (simp add: execute_leave_def execute_catch_def split: prod.splits option.splits)
  show "shape_kept l w (list_settle l out w)" using both by simp
  show "calls (list_settle l out w) = calls w" using both by simp
  show "\<exists>y. frame (listAt (list_settle l (Inl e) w) l) = Settled (Inl y)"
    using both[of "Inl e"] rej by auto
qed

lemma quiet_list_settle:
  assumes q: "quiet w w'"
  shows "shape_kept l w (list_settle l (Inl e) w')
       \<and> calls (list_settle l (Inl e) w') = calls w
       \<and> (\<exists>y. frame (listAt (list_settle l (Inl e) w') l) = Settled (Inl y))"
  using shape_trans[OF quiet_shape[OF q] list_settle_shape(1)[where l=l and w=w' and out="Inl e"]]
    list_settle_shape(2)[where l=l and w=w' and out="Inl e"]
    list_settle_shape(3)[where l=l and w=w' and e=e] q
  by (simp add: quiet_def)

text \<open>
  The \<^verbatim>\<open>while\<close> test in a store \<open>w'\<close> that an earlier store \<open>w\<close> has become without a call:
  the loop calls the child at the index, or \<^verbatim>\<open>runTasks\<close> returns \<^verbatim>\<open>last\<close>.
\<close>

lemma quiet_loop_enter:
  fixes w w' l st lst x
  defines "u \<equiv> tasks (listAt w' l) ! taskIndex (listAt w' l)"
  assumes q: "quiet w w'" and k: "taskIndex (listAt w' l) < length (tasks (listAt w' l))"
  shows "shape_kept l w (runTasks_loop l st lst x w')"
    and "frame (listAt (runTasks_loop l st lst x w') l)
           = AwaitTask st lst x u (behaviour (action (taskAt w u)) (given w l st lst x))"
    and "calls (runTasks_loop l st lst x w') = calls w @ [(u, given w l st lst x)]"
proof -
  let ?W = "runTasks_loop l st lst x w'"
  let ?arg = "given w' l st lst x"
  let ?w1 = "w'\<lparr>listAt := (listAt w')(l := (listAt w' l)\<lparr>empty := False\<rparr>)\<rparr>"
  let ?w2 = "subscribe u l ?w1"
  obtain out w3 where ee: "execute_enter u ?arg ?w2 = (out, w3)" by fastforce
  have s2: "shape_kept l w' ?w2"
    by (simp add: shape_kept_def subscribe_def set_listeners_def)
  have k23: "lists_kept ?w2 w3"
    using execute_enter_spec(2)[of ?w2 u ?arg] ee by simp
  have s3: "shape_kept l ?w2 w3"
    using kept_list_fields(5,6,7)[OF k23] kept_list_fields(11)[OF k23]
    by (simp add: shape_kept_def)
  have eq: "?W = suspend l (AwaitTask st lst x u out) w3"
    using k ee unfolding given_def u_def
    by (cases "isQueue (listAt w' l)") (simp_all add: runTasks_loop_def Let_def)
  have g: "given w' l st lst x = given w l st lst x"
    using given_kept[OF quiet_shape[OF q, of l]] .
  have a: "action (taskAt w' v) = action (taskAt w v)" for v
    using q by (simp add: quiet_def)
  have c: "calls w' = calls w" using q by (simp add: quiet_def)
  show "shape_kept l w ?W"
    unfolding eq
    using shape_trans[OF quiet_shape[OF q] shape_trans[OF shape_trans[OF s2 s3] suspend_shape]] .
  show "calls ?W = calls w @ [(u, given w l st lst x)]"
    using loop_enter_any(1)[OF k, of st lst x] by (simp add: given_def[symmetric] u_def g c)
  show "frame (listAt ?W l) = AwaitTask st lst x u (behaviour (action (taskAt w u)) (given w l st lst x))"
    using loop_enter_any(2)[OF k, of st lst x] by (simp add: given_def[symmetric] u_def g a)
qed

lemma quiet_loop_exit:
  assumes q: "quiet w w'" and k: "length (tasks (listAt w' l)) \<le> taskIndex (listAt w' l)"
  shows "shape_kept l w (runTasks_loop l st lst x w')"
    and "frame (listAt (runTasks_loop l st lst x w') l) = Settled (Inr lst)"
    and "calls (runTasks_loop l st lst x w') = calls w"
proof -
  have eq: "runTasks_loop l st lst x w' = list_settle l (Inr lst) w'"
    using k by (simp add: runTasks_loop_def Let_def)
  show "shape_kept l w (runTasks_loop l st lst x w')"
    unfolding eq
    using shape_trans[OF quiet_shape[OF q] list_settle_shape(1)[where l=l and w=w' and out="Inr lst"]] .
  show "frame (listAt (runTasks_loop l st lst x w') l) = Settled (Inr lst)"
    unfolding eq by (rule list_settle_any(2))
  show "calls (runTasks_loop l st lst x w') = calls w"
    unfolding eq using list_settle_shape(2)[where l=l and w=w' and out="Inr lst"] q
    by (simp add: quiet_def)
qed

text \<open>
  The awaited child of list \<open>l\<close> has settled, in any store: the list rejects without a
  call, or the child has fulfilled with \<open>v\<close> and the list waits in \<^verbatim>\<open>stayIdle\<close> with
  \<^verbatim>\<open>last = v\<close> or has called the next child with the same \<^verbatim>\<open>state\<close> and \<^verbatim>\<open>last = v\<close>.
\<close>

lemma after_task_any:
  assumes fr: "frame (listAt w l) = AwaitTask st lst x u out"
  shows "shape_kept l w (after_task l w)"
    and "(calls (after_task l w) = calls w
          \<and> ((\<exists>e. frame (listAt (after_task l w) l) = Settled (Inl e))
             \<or> (\<exists>v. out = Inr v \<and> frame (listAt (after_task l w) l) = AwaitImmediate st v x)))
       \<or> (\<exists>v u'. out = Inr v
            \<and> frame (listAt (after_task l w) l)
                = AwaitTask st v x u' (behaviour (action (taskAt w u')) (given w l st v x))
            \<and> calls (after_task l w) = calls w @ [(u', given w l st v x)])"
proof -
  let ?W = "after_task l w"
  let ?goal = "shape_kept l w ?W
     \<and> ((calls ?W = calls w
          \<and> ((\<exists>e. frame (listAt ?W l) = Settled (Inl e))
             \<or> (\<exists>v. out = Inr v \<and> frame (listAt ?W l) = AwaitImmediate st v x)))
       \<or> (\<exists>v u'. out = Inr v
            \<and> frame (listAt ?W l)
                = AwaitTask st v x u' (behaviour (action (taskAt w u')) (given w l st v x))
            \<and> calls ?W = calls w @ [(u', given w l st v x)]))"
  obtain r w1 where el: "execute_leave (TaskRef u) out w = (r, w1)" by fastforce
  have q1: "quiet w w1" using execute_leave_quiet[of w "TaskRef u" out] el by simp
  have main: ?goal
  proof (cases r)
    case (Inl e)
    have eq: "?W = list_settle l (Inl e) w1"
      by (simp add: after_task_def fr el Inl)
    show ?thesis unfolding eq using quiet_list_settle[OF q1, of l e] by blast
  next
    case (Inr v)
    have ov: "out = Inr v"
    proof (cases out)
      case (Inl e)
      then show ?thesis
        using execute_leave_task(6)[where out=out and e=e and u=u and w=w] el Inr by simp
    next
      case (Inr v0)
      then show ?thesis
        using execute_leave_task(3)[where out=out and v=v0 and u=u and w=w] el \<open>r = Inr v\<close> by simp
    qed
    let ?k = "taskIndex (listAt w1 l)"
    let ?w2 = "w1\<lparr>listAt := (listAt w1)(l := (listAt w1 l)\<lparr>taskIndex := ?k + 1\<rparr>)\<rparr>"
    have q2: "quiet w ?w2" using q1 by (simp add: quiet_def)
    obtain t3 w3 where pr: "progress (ListRef l) (int ?k) ?w2 = (t3, w3)" by fastforce
    have q3: "quiet w w3"
      using quiet_trans[OF q2 progress_quiet[of ?w2 "ListRef l" "int ?k"]] pr by simp
    show ?thesis
    proof (cases t3)
      case (Some e)
      have eq: "?W = list_settle l (Inl e) w3"
        using pr Some by (simp add: after_task_def fr el Inr Let_def)
      show ?thesis unfolding eq using quiet_list_settle[OF q3, of l e] by blast
    next
      case None
      show ?thesis
      proof (cases "length (tasks (listAt w3 l)) \<le> taskIndex (listAt w3 l)")
        case True
        obtain t4 w4 where em: "emit (ListRef l) ''empty'' Undefined (ListRef l) w3 = (t4, w4)"
          by fastforce
        have q4: "quiet w w4"
          using quiet_trans[OF q3 emit_quiet[of w3 "ListRef l" "''empty''" Undefined "ListRef l"]] em
          by simp
        show ?thesis
        proof (cases t4)
          case (Some e)
          have eq: "?W = list_settle l (Inl e) w4"
            using pr None True em Some by (simp add: after_task_def fr el Inr Let_def)
          show ?thesis unfolding eq using quiet_list_settle[OF q4, of l e] by blast
        next
          case None4: None
          have eq: "?W = suspend l (AwaitImmediate st v x)
                      (w4\<lparr>listAt := (listAt w4)(l := (listAt w4 l)\<lparr>empty := True\<rparr>)\<rparr>)"
            using pr None True em None4 by (simp add: after_task_def fr el Inr Let_def)
          show ?thesis
            unfolding eq using q4 ov by (simp add: quiet_def shape_kept_def suspend_def)
        qed
      next
        case False
        then have k: "taskIndex (listAt w3 l) < length (tasks (listAt w3 l))" by simp
        have eq: "?W = runTasks_loop l st v x w3"
          using pr None False by (simp add: after_task_def fr el Inr Let_def)
        show ?thesis
          unfolding eq using quiet_loop_enter[OF q3 k, of st v x] ov by blast
      qed
    qed
  qed
  show "shape_kept l w ?W" using main by simp
  show "(calls ?W = calls w
          \<and> ((\<exists>e. frame (listAt ?W l) = Settled (Inl e))
             \<or> (\<exists>v. out = Inr v \<and> frame (listAt ?W l) = AwaitImmediate st v x)))
       \<or> (\<exists>v u'. out = Inr v
            \<and> frame (listAt ?W l)
                = AwaitTask st v x u' (behaviour (action (taskAt w u')) (given w l st v x))
            \<and> calls ?W = calls w @ [(u', given w l st v x)])"
    using main by simp
qed

text \<open>
  The awaited immediate of list \<open>l\<close> has fired, in any store: the list waits on, fulfils
  with \<^verbatim>\<open>last\<close>, or has called the next child with the same \<^verbatim>\<open>state\<close> and \<^verbatim>\<open>last\<close>.
\<close>

lemma after_immediate_any:
  assumes fr: "frame (listAt w l) = AwaitImmediate st lst x"
  shows "shape_kept l w (after_immediate l w)"
    and "(calls (after_immediate l w) = calls w
          \<and> (frame (listAt (after_immediate l w) l) = Settled (Inr lst)
             \<or> frame (listAt (after_immediate l w) l) = AwaitImmediate st lst x))
       \<or> (\<exists>u'. frame (listAt (after_immediate l w) l)
                = AwaitTask st lst x u' (behaviour (action (taskAt w u')) (given w l st lst x))
            \<and> calls (after_immediate l w) = calls w @ [(u', given w l st lst x)])"
proof -
  let ?W = "after_immediate l w"
  have eq: "?W = (if wait (listAt w l) then w else runTasks_loop l st lst x w)"
    by (simp add: after_immediate_def fr)
  have main: "shape_kept l w ?W
    \<and> ((calls ?W = calls w
          \<and> (frame (listAt ?W l) = Settled (Inr lst) \<or> frame (listAt ?W l) = AwaitImmediate st lst x))
       \<or> (\<exists>u'. frame (listAt ?W l)
                = AwaitTask st lst x u' (behaviour (action (taskAt w u')) (given w l st lst x))
            \<and> calls ?W = calls w @ [(u', given w l st lst x)]))"
  proof (cases "wait (listAt w l)")
    case True
    then show ?thesis unfolding eq using fr by simp
  next
    case False
    show ?thesis
    proof (cases "taskIndex (listAt w l) < length (tasks (listAt w l))")
      case True
      show ?thesis
        unfolding eq using False quiet_loop_enter[OF quiet_refl True, of st lst x] by simp
    next
      case k: False
      then have k': "length (tasks (listAt w l)) \<le> taskIndex (listAt w l)" by simp
      show ?thesis
        unfolding eq using False quiet_loop_exit[OF quiet_refl k', of st lst x] by simp
    qed
  qed
  show "shape_kept l w ?W" using main by simp
  show "(calls ?W = calls w
          \<and> (frame (listAt ?W l) = Settled (Inr lst) \<or> frame (listAt ?W l) = AwaitImmediate st lst x))
       \<or> (\<exists>u'. frame (listAt ?W l)
                = AwaitTask st lst x u' (behaviour (action (taskAt w u')) (given w l st lst x))
            \<and> calls ?W = calls w @ [(u', given w l st lst x)])"
    using main by simp
qed

lemma bucket_settle_quiet: "quiet w (bucket_settle out w)"
proof -
  obtain r w1 where el: "execute_leave BucketRef out w = (r, w1)" by fastforce
  have q: "quiet w w1" using execute_leave_quiet[of w BucketRef out] el by simp
  show ?thesis using q by (simp add: bucket_settle_def el quiet_def)
qed

lemma after_all_quiet: "quiet w (after_all w)"
  by (simp add: after_all_def Let_def bucket_settle_quiet
      split: bframe.splits option.splits frame.splits sum.splits)

lemma quiet_after_all:
  assumes "shape_kept l w w'"
  shows "shape_kept l w (after_all w')"
    and "frame (listAt (after_all w') m) = frame (listAt w' m)"
    and "calls (after_all w') = calls w'"
  using shape_trans[OF assms quiet_shape[OF after_all_quiet]] after_all_quiet[of w']
  by (simp_all add: quiet_def)

text \<open>
  One event, in any store: the other lists keep their frames; the list that is resumed
  keeps its frame or gets one that follows it; and a child is called only by the list
  that is resumed, at most one, with the input built from the locals of the new frame.
\<close>

lemma step_any:
  "shape_kept (stepped t) w (step t w)"
  "(calls (step t w) = calls w
      \<and> (frame (listAt (step t w) (stepped t)) = frame (listAt w (stepped t))
         \<or> follows (frame (listAt w (stepped t))) (frame (listAt (step t w) (stepped t)))
            \<and> ((\<exists>r. frame (listAt (step t w) (stepped t)) = Settled r)
               \<or> (\<exists>s p y. frame (listAt (step t w) (stepped t)) = AwaitImmediate s p y))))
   \<or> (\<exists>s p y u. frame (listAt (step t w) (stepped t))
             = AwaitTask s p y u (behaviour (action (taskAt w u)) (given w (stepped t) s p y))
          \<and> calls (step t w) = calls w @ [(u, given w (stepped t) s p y)]
          \<and> follows (frame (listAt w (stepped t))) (frame (listAt (step t w) (stepped t))))"
proof -
  let ?l = "stepped t"
  let ?V = "step t w"
  have main: "shape_kept ?l w ?V
    \<and> ((calls ?V = calls w
        \<and> (frame (listAt ?V ?l) = frame (listAt w ?l)
           \<or> follows (frame (listAt w ?l)) (frame (listAt ?V ?l))
              \<and> ((\<exists>r. frame (listAt ?V ?l) = Settled r)
                 \<or> (\<exists>s p y. frame (listAt ?V ?l) = AwaitImmediate s p y))))
      \<or> (\<exists>s p y u. frame (listAt ?V ?l)
             = AwaitTask s p y u (behaviour (action (taskAt w u)) (given w ?l s p y))
          \<and> calls ?V = calls w @ [(u, given w ?l s p y)]
          \<and> follows (frame (listAt w ?l)) (frame (listAt ?V ?l))))"
  proof (cases t)
    case (TaskSettles l)
    let ?U = "after_task l w"
    have V: "?V = after_all ?U" "?l = l" using TaskSettles by simp_all
    show ?thesis
    proof (cases "frame (listAt w l)")
      case (AwaitTask st lst x u out)
      note a = after_task_any[OF AwaitTask]
      note b = quiet_after_all[OF a(1)]
      show ?thesis
        unfolding V using a(2) b(1) by (auto simp: b(2) b(3) AwaitTask)
    qed (simp_all add: V after_task_def quiet_after_all[OF shape_refl])
  next
    case (ImmediateFires l)
    let ?U = "after_immediate l w"
    have V: "?V = after_all ?U" "?l = l" using ImmediateFires by simp_all
    show ?thesis
    proof (cases "frame (listAt w l)")
      case (AwaitImmediate st lst x)
      note a = after_immediate_any[OF AwaitImmediate]
      note b = quiet_after_all[OF a(1)]
      show ?thesis
        unfolding V using a(2) b(1) by (auto simp: b(2) b(3) AwaitImmediate)
    qed (simp_all add: V after_immediate_def quiet_after_all[OF shape_refl])
  qed
  show "shape_kept (stepped t) w (step t w)" using main by simp
  show "(calls ?V = calls w
        \<and> (frame (listAt ?V ?l) = frame (listAt w ?l)
           \<or> follows (frame (listAt w ?l)) (frame (listAt ?V ?l))
              \<and> ((\<exists>r. frame (listAt ?V ?l) = Settled r)
                 \<or> (\<exists>s p y. frame (listAt ?V ?l) = AwaitImmediate s p y))))
      \<or> (\<exists>s p y u. frame (listAt ?V ?l)
             = AwaitTask s p y u (behaviour (action (taskAt w u)) (given w ?l s p y))
          \<and> calls ?V = calls w @ [(u, given w ?l s p y)]
          \<and> follows (frame (listAt w ?l)) (frame (listAt ?V ?l)))"
    using main by simp
qed










lemma given_step: "given (step t w) m s p y = given w m s p y"
  using given_kept[OF step_any(1)] .

lemma given_fold: "given (fold step sched w) m s p y = given w m s p y"
proof (induction sched arbitrary: w)
  case Nil
  then show ?case by simp
next
  case (Cons t sched)
  show ?case using Cons.IH[of "step t w"] by (simp add: given_step)
qed













end
